theory Spec2Isabelle
  imports Complex_Main "HOL-Library.Word"
begin

section \<open>BufferedIterableSource: the read-ahead producer/consumer engine\<close>

subsection \<open>Time and iterator results\<close>

text \<open>
  Modelled from the spec: \<open>Time\<close> and the functions \<open>add\<close>, \<open>compare\<close> of the rostime
  package are imported by the source and not part of it. The spec gives a time as a pair
  (sec, nsec) with nsec below 1e9, compared lexicographically; such a pair is represented
  here by its total number of nanoseconds, on which the lexicographic order is the order
  of the naturals and \<open>add\<close> is addition.
\<close>

type_synonym Time = nat

definition addTime :: "Time \<Rightarrow> Time \<Rightarrow> Time" where
  "addTime a b = a + b"

definition compare :: "Time \<Rightarrow> Time \<Rightarrow> int" where
  "compare l r = int l - int r"

record MessageEvent =
  topic :: string
  receiveTime :: Time
  sizeInBytes :: nat

text \<open>
  Modelled from the spec: \<open>IteratorResult\<close> is declared in IIterableSource, which is not
  among the sources; the spec gives it as the tagged union of a message event and a stamp.
\<close>

datatype IteratorResult =
    message_event (msgEvent: MessageEvent)
  | stamp Time

fun resultTime :: "IteratorResult \<Rightarrow> Time" where
  "resultTime (message_event m) = receiveTime m"
| "resultTime (stamp t) = t"

fun is_stamp :: "IteratorResult \<Rightarrow> bool" where
  "is_stamp (stamp t) = True"
| "is_stamp (message_event m) = False"

record Initalization =
  init_start :: Time
  init_end :: Time

record MessageIteratorArgs =
  args_topics :: "string list"
  args_start :: "Time option"

subsection \<open>Tasks and state\<close>

text \<open>
  The producer (\<open>startProducer\<close>) is an async function: between two of its awaits it runs
  without interruption. A producer task is therefore described by the await it is
  suspended at. \<open>StampWait t\<close> and \<open>WriteWait\<close> are the two waits on \<open>writeSignal\<close>
  (inside the stamp loop, holding the stamp \<open>t\<close>, and at the end of the loop body);
  \<open>notifyAll\<close> turns them into \<open>StampWoken t\<close> and \<open>WriteWoken\<close>, whose continuation has
  not run yet. \<open>Resolved\<close> and \<open>Rejected\<close> are the two ways the promise settles.
\<close>

datatype producer_task =
    AwaitNext
  | StampWait Time
  | StampWoken Time
  | WriteWait
  | WriteWoken
  | Resolved
  | Rejected

text \<open>
  The consumer is the async generator \<open>bufferedIterableGenerator\<close>: not yet started,
  suspended at its \<open>yield\<close>, waiting on \<open>readSignal\<close> (notified or not), awaiting the
  producer inside \<open>stopProducer\<close>, or finished (normally, or by the rethrown rejection of
  the producer).
\<close>

datatype consumer_task =
    NotStarted
  | AtYield
  | ReadWait
  | ReadWoken
  | Stopping
  | Completed
  | Threw

text \<open>
  Modelled from the spec: \<open>VecQueue\<close> belongs to a package that is not among the sources.
  It is the ordered queue of the spec: \<open>enqueue\<close> appends, \<open>dequeue\<close> takes the first
  element and gives \<open>undefined\<close> on an empty queue, \<open>clear\<close> empties it. It is a list here.
\<close>

text \<open>
  The fields of the class, followed by what surrounds one iterator session: the results the
  wrapped source's iterator still has to deliver (and whether it throws after them), the
  generator, the topics captured by the generator's closure, and the results the generator
  has yielded to its caller so far, and the number of direct calls of the public
  \<open>stopProducer\<close> whose await of the promise in \<open>producer\<close> is outstanding. \<open>producer\<close> is
  \<open>None\<close> when the field is undefined, and otherwise holds the state of the promise's task.
\<close>

record BufferedIterableSource =
  readDone :: bool
  aborted :: bool
  cache :: "IteratorResult list"
  readHead :: Time
  producer :: "producer_task option"
  initResult :: "Initalization option"
  readAheadDuration :: Time
  sourceIterator :: "IteratorResult list"
  sourceThrows :: bool
  consumer :: consumer_task
  topics :: "string list"
  yielded :: "IteratorResult list"
  stopCalls :: nat

datatype invariant_error = Uninitialized | OnlyOneMessageIterator

subsection \<open>Condition variables\<close>

text \<open>
  Modelled from the spec: \<open>Condvar\<close> belongs to a package that is not among the sources.
  \<open>wait\<close> suspends the caller until the next \<open>notifyAll\<close>; \<open>notifyAll\<close> wakes every task
  waiting at that moment and is lost when none waits. Only the consumer waits on
  \<open>readSignal\<close> and only the producer on \<open>writeSignal\<close>.
\<close>

definition readSignal_notifyAll :: "BufferedIterableSource \<Rightarrow> BufferedIterableSource" where
  "readSignal_notifyAll s =
     (if consumer s = ReadWait then s\<lparr>consumer := ReadWoken\<rparr> else s)"

definition writeSignal_notifyAll :: "BufferedIterableSource \<Rightarrow> BufferedIterableSource" where
  "writeSignal_notifyAll s =
     (case producer s of
        Some (StampWait t) \<Rightarrow> s\<lparr>producer := Some (StampWoken t)\<rparr>
      | Some WriteWait \<Rightarrow> s\<lparr>producer := Some WriteWoken\<rparr>
      | _ \<Rightarrow> s)"

subsection \<open>The producer\<close>

text \<open>The \<open>finally\<close> block of \<open>startProducer\<close>, followed by the settling of the promise.\<close>

definition producer_finally ::
  "producer_task \<Rightarrow> BufferedIterableSource \<Rightarrow> BufferedIterableSource" where
  "producer_finally outcome s =
     (readSignal_notifyAll s)\<lparr>readDone := True, producer := Some outcome\<rparr>"

text \<open>
  One round of the \<open>while\<close> loop over a stamp at or past the horizon, from the test of its
  condition to the wait on \<open>writeSignal\<close>; when the condition fails the \<open>continue\<close> after
  the loop asks the source for its next result.
\<close>

definition stamp_loop :: "Time \<Rightarrow> BufferedIterableSource \<Rightarrow> BufferedIterableSource" where
  "stamp_loop t s =
     (let readUntil = addTime (readHead s) (readAheadDuration s) in
      if compare t readUntil \<ge> 0
      then (readSignal_notifyAll (s\<lparr>cache := cache s @ [stamp t]\<rparr>))
             \<lparr>producer := Some (StampWait t)\<rparr>
      else s\<lparr>producer := Some AwaitNext\<rparr>)"

text \<open>
  The body of the \<open>for await\<close> loop for one result of the source. The value given to
  \<open>readUntil\<close> before the loop (the clamped one) is overwritten here before it is read.
\<close>

definition loop_body :: "IteratorResult \<Rightarrow> BufferedIterableSource \<Rightarrow> BufferedIterableSource" where
  "loop_body result s =
     (if aborted s then producer_finally Resolved s
      else
        let readUntil = addTime (readHead s) (readAheadDuration s) in
        if is_stamp result \<and> compare (resultTime result) readUntil \<ge> 0
        then stamp_loop (resultTime result) s
        else
          let s1 = readSignal_notifyAll (s\<lparr>cache := cache s @ [result]\<rparr>) in
          if \<not> is_stamp result \<and> compare (resultTime result) readUntil \<le> 0
          then s1\<lparr>producer := Some AwaitNext\<rparr>
          else if length (cache s1) = 0
          then s1\<lparr>producer := Some AwaitNext\<rparr>
          else s1\<lparr>producer := Some WriteWait\<rparr>)"

text \<open>
  One turn of the producer: its continuation runs from the await it is suspended at to
  the next one. At \<open>AwaitNext\<close> the source's iterator delivers its next result, ends, or
  throws. A producer that waits on \<open>writeSignal\<close> without having been notified, or that
  has settled, has nothing to run.
\<close>

definition producer_turn :: "BufferedIterableSource \<Rightarrow> BufferedIterableSource" where
  "producer_turn s =
     (case producer s of
        Some AwaitNext \<Rightarrow>
          (case sourceIterator s of
             [] \<Rightarrow> producer_finally (if sourceThrows s then Rejected else Resolved) s
           | result # rest \<Rightarrow> loop_body result (s\<lparr>sourceIterator := rest\<rparr>))
      | Some (StampWoken t) \<Rightarrow> stamp_loop t s
      | Some WriteWoken \<Rightarrow> s\<lparr>producer := Some AwaitNext\<rparr>
      | _ \<Rightarrow> s)"

text \<open>\<open>startProducer\<close> up to its first await, as \<open>messageIterator\<close> runs it.\<close>

definition startProducer ::
  "MessageIteratorArgs \<Rightarrow> IteratorResult list \<Rightarrow> bool \<Rightarrow>
   BufferedIterableSource \<Rightarrow> BufferedIterableSource" where
  "startProducer args src throws s =
     (case initResult s of
        None \<Rightarrow> s\<lparr>producer := Some Rejected\<rparr>
      | Some init \<Rightarrow>
          if length (args_topics args) = 0
          then s\<lparr>readDone := True, producer := Some Resolved\<rparr>
          else s\<lparr>cache := [], sourceIterator := src, sourceThrows := throws,
                 producer := Some AwaitNext\<rparr>)"

subsection \<open>The consumer\<close>

text \<open>
  \<open>stopProducer\<close> up to its await of the producer. It is public: the generator calls it
  in its \<open>finally\<close> block, and any caller may call it directly.
\<close>

definition stopProducer :: "BufferedIterableSource \<Rightarrow> BufferedIterableSource" where
  "stopProducer s = writeSignal_notifyAll (s\<lparr>aborted := True\<rparr>)"

text \<open>
  The generator's \<open>finally\<close> block up to the await inside \<open>stopProducer\<close>, and its
  continuation once the producer's promise has settled; a rejected promise is rethrown by
  the await, which skips the assignment to \<open>producer\<close>.
\<close>

definition generator_finally :: "BufferedIterableSource \<Rightarrow> BufferedIterableSource" where
  "generator_finally s = (stopProducer s)\<lparr>consumer := Stopping\<rparr>"

definition stopProducer_resume :: "BufferedIterableSource \<Rightarrow> BufferedIterableSource" where
  "stopProducer_resume s =
     (case producer s of
        None \<Rightarrow> s\<lparr>consumer := Completed\<rparr>
      | Some Resolved \<Rightarrow> s\<lparr>producer := None, consumer := Completed\<rparr>
      | Some Rejected \<Rightarrow> s\<lparr>consumer := Threw\<rparr>
      | _ \<Rightarrow> s)"

text \<open>
  A direct call of \<open>stopProducer\<close> up to its await, and the continuation of one such call
  once the producer has settled (or at once, when there was no producer to await). Like
  the generator's, the await of a rejected promise rethrows and skips the assignment.
  Within a session the promise in \<open>producer\<close> is never replaced, so the calls are counted
  and not told apart.
\<close>

definition stopProducer_call :: "BufferedIterableSource \<Rightarrow> BufferedIterableSource" where
  "stopProducer_call s = (stopProducer s)\<lparr>stopCalls := Suc (stopCalls s)\<rparr>"

definition stopProducer_call_resume :: "BufferedIterableSource \<Rightarrow> BufferedIterableSource" where
  "stopProducer_call_resume s =
     (if stopCalls s = 0 then s
      else
        (case producer s of
           None \<Rightarrow> s\<lparr>stopCalls := stopCalls s - 1\<rparr>
         | Some Resolved \<Rightarrow> s\<lparr>producer := None, stopCalls := stopCalls s - 1\<rparr>
         | Some Rejected \<Rightarrow> s\<lparr>stopCalls := stopCalls s - 1\<rparr>
         | _ \<Rightarrow> s))"

text \<open>One round of the generator's \<open>for (;;)\<close> loop, up to its yield, wait or break.\<close>

definition generator_loop :: "BufferedIterableSource \<Rightarrow> BufferedIterableSource" where
  "generator_loop s =
     (case cache s of
        [] \<Rightarrow> if readDone s then generator_finally s else s\<lparr>consumer := ReadWait\<rparr>
      | item # rest \<Rightarrow>
          (writeSignal_notifyAll (s\<lparr>cache := rest, readHead := resultTime item\<rparr>))
            \<lparr>yielded := yielded s @ [item], consumer := AtYield\<rparr>)"

subsection \<open>Schedules\<close>

text \<open>
  Everything runs on one event loop. A schedule is the order in which the things that
  can happen are taken: the producer's continuation runs, the caller of the generator
  asks for the next result, the generator's own continuation runs (after a wait on
  \<open>readSignal\<close> or on the producer), the caller ends the iteration with \<open>return()\<close>,
  somebody calls \<open>stopProducer\<close> directly, and the continuation of such a call runs.
  A request made while the generator is busy is queued by the runtime; here it has no
  effect and can be scheduled again later. A generator that was never started finishes
  on \<open>return()\<close> without entering its \<open>try\<close> block. \<open>terminate\<close> tears down the whole
  chain, the wrapped source included; a session is followed up to that call, which is not
  an event here.
\<close>

datatype event = ProducerTurn | Next | ConsumerTurn | Return | Stop | StopTurn

fun step :: "event \<Rightarrow> BufferedIterableSource \<Rightarrow> BufferedIterableSource" where
  "step ProducerTurn s = producer_turn s"
| "step Next s =
     (case consumer s of
        NotStarted \<Rightarrow> if length (topics s) = 0 then generator_finally s else generator_loop s
      | AtYield \<Rightarrow> generator_loop s
      | _ \<Rightarrow> s)"
| "step ConsumerTurn s =
     (case consumer s of
        ReadWoken \<Rightarrow> generator_loop s
      | Stopping \<Rightarrow> stopProducer_resume s
      | _ \<Rightarrow> s)"
| "step Return s =
     (case consumer s of
        NotStarted \<Rightarrow> s\<lparr>consumer := Completed\<rparr>
      | AtYield \<Rightarrow> generator_finally s
      | _ \<Rightarrow> s)"
| "step Stop s = stopProducer_call s"
| "step StopTurn s = stopProducer_call_resume s"

fun run :: "event list \<Rightarrow> BufferedIterableSource \<Rightarrow> BufferedIterableSource" where
  "run [] s = s"
| "run (e # es) s = run es (step e s)"

subsection \<open>messageIterator\<close>

text \<open>
  \<open>messageIterator\<close> throws or returns the generator. \<open>src\<close> and \<open>throws\<close> are what the
  wrapped source's iterator is going to deliver for these arguments.
\<close>

definition messageIterator ::
  "MessageIteratorArgs \<Rightarrow> IteratorResult list \<Rightarrow> bool \<Rightarrow>
   BufferedIterableSource \<Rightarrow> invariant_error + BufferedIterableSource" where
  "messageIterator args src throws s =
     (case initResult s of
        None \<Rightarrow> Inl Uninitialized
      | Some init \<Rightarrow>
          (case producer s of
             Some p \<Rightarrow> Inl OnlyOneMessageIterator
           | None \<Rightarrow>
               let start = (case args_start args of Some t \<Rightarrow> t | None \<Rightarrow> init_start init) in
               Inr (startProducer args src throws
                      (s\<lparr>readHead := start, aborted := False, readDone := False,
                         consumer := NotStarted, topics := args_topics args,
                         yielded := []\<rparr>))))"

subsection \<open>Construction and initialisation\<close>

definition DEFAULT_READ_AHEAD_DURATION :: Time where
  "DEFAULT_READ_AHEAD_DURATION = 10 * 1000000000"

text \<open>
  The constructor, with the optional \<open>readAheadDuration\<close>. No generator exists yet, which
  is as a finished one: nothing can be asked of it.
\<close>

definition new_BufferedIterableSource :: "Time option \<Rightarrow> BufferedIterableSource" where
  "new_BufferedIterableSource opt =
     \<lparr>readDone = False, aborted = False, cache = [], readHead = 0, producer = None,
      initResult = None,
      readAheadDuration = (case opt of Some d \<Rightarrow> d | None \<Rightarrow> DEFAULT_READ_AHEAD_DURATION),
      sourceIterator = [], sourceThrows = False, consumer = Completed, topics = [],
      yielded = [], stopCalls = 0\<rparr>"

text \<open>\<open>initialize\<close>, given what the wrapped source's \<open>initialize\<close> resolves with.\<close>

definition initialize :: "Initalization \<Rightarrow> BufferedIterableSource \<Rightarrow> BufferedIterableSource" where
  "initialize r s = s\<lparr>initResult := Some r\<rparr>"

subsection \<open>Properties of a session\<close>

definition producer_settled :: "BufferedIterableSource \<Rightarrow> bool" where
  "producer_settled s = (producer s = Some Resolved \<or> producer s = Some Rejected)"

definition producer_blocked :: "BufferedIterableSource \<Rightarrow> bool" where
  "producer_blocked s =
     (case producer s of Some (StampWait t) \<Rightarrow> True | Some WriteWait \<Rightarrow> True | _ \<Rightarrow> False)"

text \<open>A result lies within the read-ahead horizon of the current read head.\<close>

definition within_horizon :: "BufferedIterableSource \<Rightarrow> IteratorResult \<Rightarrow> bool" where
  "within_horizon s x = (resultTime x \<le> readHead s + readAheadDuration s)"

text \<open>
  The read-ahead bound with one item of slack: every queued result except the latest one
  lies within the horizon.
\<close>

definition read_ahead_bound :: "BufferedIterableSource \<Rightarrow> bool" where
  "read_ahead_bound s = list_all (within_horizon s) (butlast (cache s))"

text \<open>
  \<open>follows ys xs\<close>: the results \<open>ys\<close> are the results \<open>xs\<close> of the source in the source's
  order, starting with its first, none left out and none out of place, where a stamp may
  stand several times in a row; \<open>ys\<close> may stop before \<open>xs\<close> does. \<open>covers\<close> is the same for
  a \<open>ys\<close> that goes through the whole of \<open>xs\<close>.
\<close>

fun follows :: "IteratorResult list \<Rightarrow> IteratorResult list \<Rightarrow> bool" where
  "follows [] xs = True"
| "follows (y # ys) [] = False"
| "follows (y # ys) (x # xs) =
     (y = x \<and> (follows ys xs \<or> (is_stamp x \<and> follows ys (x # xs))))"

fun covers :: "IteratorResult list \<Rightarrow> IteratorResult list \<Rightarrow> bool" where
  "covers [] [] = True"
| "covers [] (x # xs) = False"
| "covers (y # ys) [] = False"
| "covers (y # ys) (x # xs) =
     (y = x \<and> (covers ys xs \<or> (is_stamp x \<and> covers ys (x # xs))))"

subsection \<open>Example sessions\<close>

definition msg :: "Time \<Rightarrow> IteratorResult" where
  "msg t = message_event \<lparr>topic = ''/a'', receiveTime = t, sizeInBytes = 1\<rparr>"

text \<open>
  An initialised instance with a read-ahead of 10 time units over a source spanning
  0 to 100, and the session that \<open>messageIterator\<close> starts on it for topic \<open>/a\<close> from the
  source's start, over a source iterator that delivers \<open>src\<close>.
\<close>

definition example_instance :: BufferedIterableSource where
  "example_instance = initialize \<lparr>init_start = 0, init_end = 100\<rparr> (new_BufferedIterableSource (Some 10))"

definition example_args :: MessageIteratorArgs where
  "example_args = \<lparr>args_topics = [''/a''], args_start = None\<rparr>"

definition example_session :: "IteratorResult list \<Rightarrow> bool \<Rightarrow> BufferedIterableSource" where
  "example_session src throws =
     (case messageIterator example_args src throws example_instance of
        Inr s \<Rightarrow> s | Inl e \<Rightarrow> example_instance)"

text \<open>
  A slow caller over a source with a gap: the caller asks for a result and waits, the
  producer delivers the message at 1, the caller receives it, the producer meets the stamp
  at 100 and waits inside the stamp loop, and the caller ends the iteration.
\<close>

definition abort_example :: BufferedIterableSource where
  "abort_example =
     run [Next, ProducerTurn, ConsumerTurn, ProducerTurn, Return]
       (example_session [msg 1, stamp 100] False)"


text \<open>
  A slow caller over a source whose messages jump past the horizon: the producer fills the
  queue up to the message at 50 and waits; each of the caller's two requests takes one
  message and lets the producer add one more.
\<close>

definition slack_example :: BufferedIterableSource where
  "slack_example =
     run [ProducerTurn, ProducerTurn, ProducerTurn, ProducerTurn,
          Next, ProducerTurn, ProducerTurn, Next, ProducerTurn, ProducerTurn]
       (example_session [msg 1, msg 2, msg 3, msg 50, msg 60, msg 70] False)"

subsection \<open>Invariants of a session\<close>

definition producer_live :: "BufferedIterableSource \<Rightarrow> bool" where
  "producer_live s =
     (case producer s of
        None \<Rightarrow> False | Some Resolved \<Rightarrow> False | Some Rejected \<Rightarrow> False | _ \<Rightarrow> True)"

definition stamp_held :: "BufferedIterableSource \<Rightarrow> Time option" where
  "stamp_held s =
     (case producer s of
        Some (StampWait t) \<Rightarrow> Some t | Some (StampWoken t) \<Rightarrow> Some t | _ \<Rightarrow> None)"

text \<open>
  What has been yielded and what is queued goes exactly through the part \<open>p\<close> of the
  source's results \<open>S\<close> that the producer has taken and kept; a live producer has the rest
  of \<open>S\<close> before it, and a producer inside the stamp loop holds the last result of \<open>p\<close>.
\<close>

definition order_inv :: "IteratorResult list \<Rightarrow> BufferedIterableSource \<Rightarrow> bool" where
  "order_inv S s =
     (\<exists>p q. S = p @ q \<and> covers (yielded s @ cache s) p \<and>
            (producer_live s \<longrightarrow> q = sourceIterator s) \<and>
            (\<forall>t. stamp_held s = Some t \<longrightarrow> p \<noteq> [] \<and> last p = stamp t))"

text \<open>A session over no topics: the generator never takes anything from the queue.\<close>

definition idle_inv :: "BufferedIterableSource \<Rightarrow> bool" where
  "idle_inv s =
     (length (topics s) = 0 \<and> yielded s = [] \<and>
      (consumer s = NotStarted \<or> consumer s = Stopping \<or> consumer s = Completed \<or>
       consumer s = Threw))"

text \<open>
  Once the producer has settled, \<open>readDone\<close> is set and the consumer is not left waiting
  on \<open>readSignal\<close>.
\<close>

definition settle_inv :: "BufferedIterableSource \<Rightarrow> bool" where
  "settle_inv s = (producer_settled s \<longrightarrow> readDone s \<and> consumer s \<noteq> ReadWait)"

text \<open>
  Before the first result is taken from the queue and before \<open>stopProducer\<close> is called:
  the bound holds, a producer that is about to read on has everything it queued within the
  horizon, and nobody has notified \<open>writeSignal\<close>.
\<close>

definition fresh_inv :: "BufferedIterableSource \<Rightarrow> bool" where
  "fresh_inv s =
     ((yielded s = [] \<and> \<not> aborted s \<longrightarrow>
         read_ahead_bound s \<and>
         (producer s = Some AwaitNext \<longrightarrow> list_all (within_horizon s) (cache s)) \<and>
         producer s \<noteq> Some WriteWoken \<and> (\<forall>t. producer s \<noteq> Some (StampWoken t))) \<and>
      (readDone s \<longrightarrow> \<not> producer_live s) \<and>
      (consumer s = AtYield \<longrightarrow> yielded s \<noteq> []) \<and>
      length (topics s) \<noteq> 0)"

text \<open>
  A producer that holds the stamp \<open>t\<close> inside the stamp loop, with the stamp at or past the
  horizon, while the generator awaits it in \<open>stopProducer\<close>.
\<close>

definition hung :: "Time \<Rightarrow> BufferedIterableSource \<Rightarrow> bool" where
  "hung t s =
     (stamp_held s = Some t \<and> consumer s = Stopping \<and>
      compare t (addTime (readHead s) (readAheadDuration s)) \<ge> 0)"


section \<open>CachedFilelike: the cached, reconnecting byte-range reader\<close>

subsection \<open>Data\<close>

text \<open>
  Offsets, lengths, sizes and times are JavaScript numbers in the source; they are whole
  numbers here. \<open>Infinity\<close>, the default of \<open>cacheSizeInBytes\<close>, is \<open>None\<close>.
\<close>

record Range =
  range_start :: int
  range_end :: int

type_synonym bytes = "8 word list"

datatype error =
    InvalidInput
  | MoreThanCacheSize
  | ReadPastSize
  | NotOpened
  | External string

datatype promise = Pending | Fulfilled bytes | RejectedWith error

text \<open>
  \<open>VirtualLRUBuffer\<close> and \<open>getNewConnection\<close> are imported by the source and not part of
  it. They are parameters of the model: a buffer type \<open>'b\<close> with the operations the source
  calls on it, and the function that chooses the next connection. The options are those
  the source passes to the buffer's constructor, the arguments those it passes to
  \<open>getNewConnection\<close>.
\<close>

record VirtualLRUBuffer_options =
  opt_size :: int
  opt_blockSize :: "int option"
  opt_numberOfBlocks :: "int option"

record getNewConnection_args =
  arg_currentRemainingRange :: "Range option"
  arg_readRequestRange :: "Range option"
  arg_downloadedRanges :: "Range list"
  arg_lastResolvedCallbackEnd :: "int option"
  arg_maxRequestSize :: "int option"
  arg_fileSize :: int
  arg_continueDownloadingThreshold :: int

record 'b collaborators =
  new_VirtualLRUBuffer :: "VirtualLRUBuffer_options \<Rightarrow> 'b"
  hasData :: "'b \<Rightarrow> int \<Rightarrow> int \<Rightarrow> bool"
  slice :: "'b \<Rightarrow> int \<Rightarrow> int \<Rightarrow> bytes \<times> 'b"
  copyFrom :: "'b \<Rightarrow> bytes \<Rightarrow> int \<Rightarrow> 'b"
  getRangesWithData :: "'b \<Rightarrow> Range list"
  getNewConnection :: "getNewConnection_args \<Rightarrow> Range option"

text \<open>
  A connection is the stream (numbered in the order of the calls of \<open>fetch\<close>) with its
  remaining range, together with the two variables that the stream's handlers close over:
  the range the connection was opened for and the number of bytes read from it.
\<close>

record Connection =
  stream :: nat
  remainingRange :: Range
  conn_range :: Range
  bytesRead :: int

record ReadRequest =
  req_range :: Range
  req_promise :: nat
  requestTime :: int

text \<open>
  The fields of the class, followed by what the reader does to its surroundings: the
  promises of the queued reads (a request holds the position of its promise), the calls of
  \<open>fetch\<close> as (offset, length), the streams destroyed, and the values passed to
  \<open>keepReconnectingCallback\<close>; that field itself records whether a callback was configured.
\<close>

record 'b CachedFilelike =
  cacheSizeInBytes :: "int option"
  fileSize :: "int option"
  virtualBuffer :: 'b
  closedFlag :: bool
  keepReconnectingCallback :: bool
  currentConnection :: "Connection option"
  readRequests :: "ReadRequest list"
  lastResolvedCallbackEnd :: "int option"
  lastErrorTime :: "int option"
  promises :: "promise list"
  fetched :: "(int \<times> int) list"
  destroyed :: "nat list"
  reconnecting :: "bool list"

definition CACHE_BLOCK_SIZE :: int where
  "CACHE_BLOCK_SIZE = 1024 * 1024 * 10"

definition CLOSE_ENOUGH_BYTES_TO_NOT_START_NEW_CONNECTION :: int where
  "CLOSE_ENOUGH_BYTES_TO_NOT_START_NEW_CONNECTION = 1024 * 1024 * 5"

text \<open>Resolving or rejecting a promise settles it only while it is pending.\<close>

definition settle :: "nat \<Rightarrow> promise \<Rightarrow> promise list \<Rightarrow> promise list" where
  "settle i v ps = (if i < length ps \<and> ps ! i = Pending then ps[i := v] else ps)"

subsection \<open>Construction and opening\<close>

definition new_CachedFilelike ::
  "'b collaborators \<Rightarrow> int option \<Rightarrow> bool \<Rightarrow> 'b CachedFilelike" where
  "new_CachedFilelike d cacheSize callback =
     \<lparr>cacheSizeInBytes = cacheSize, fileSize = None,
      virtualBuffer = new_VirtualLRUBuffer d
        \<lparr>opt_size = 0, opt_blockSize = None, opt_numberOfBlocks = None\<rparr>,
      closedFlag = False, keepReconnectingCallback = callback, currentConnection = None,
      readRequests = [], lastResolvedCallbackEnd = None, lastErrorTime = None,
      promises = [], fetched = [], destroyed = [], reconnecting = []\<rparr>"

text \<open>
  \<open>open\<close>, given what \<open>fileReader.open()\<close> settles with: an error or the size. The await
  of \<open>fileReader.open()\<close> is taken to complete before anything else happens to the reader.
  An infinite \<open>cacheSizeInBytes\<close> is at least every size; \<open>Math.ceil\<close> of the quotient is
  the ceiling of the real quotient.
\<close>

definition open_file ::
  "'b collaborators \<Rightarrow> error + int \<Rightarrow> 'b CachedFilelike \<Rightarrow> error + 'b CachedFilelike" where
  "open_file d opened s =
     (case fileSize s of
        Some known \<Rightarrow> Inr s
      | None \<Rightarrow>
          (case opened of
             Inl e \<Rightarrow> Inl e
           | Inr fsize \<Rightarrow>
               Inr (s\<lparr>fileSize := Some fsize,
                      virtualBuffer :=
                        (case cacheSizeInBytes s of
                           None \<Rightarrow>
                             new_VirtualLRUBuffer d
                               \<lparr>opt_size = fsize, opt_blockSize = None,
                                opt_numberOfBlocks = None\<rparr>
                         | Some c \<Rightarrow>
                             if c \<ge> fsize
                             then new_VirtualLRUBuffer d
                                    \<lparr>opt_size = fsize, opt_blockSize = None,
                                     opt_numberOfBlocks = None\<rparr>
                             else new_VirtualLRUBuffer d
                                    \<lparr>opt_size = fsize, opt_blockSize = Some CACHE_BLOCK_SIZE,
                                     opt_numberOfBlocks =
                                       Some (\<lceil>real_of_int c / real_of_int CACHE_BLOCK_SIZE\<rceil>
                                             + 2)\<rparr>)\<rparr>)))"

subsection \<open>Connections and the state update\<close>

text \<open>\<open>_setConnection\<close> up to the registration of the stream's two handlers.\<close>

definition setConnection :: "Range \<Rightarrow> 'b CachedFilelike \<Rightarrow> 'b CachedFilelike" where
  "setConnection rng s =
     (let s1 = (case currentConnection s of
                  Some c \<Rightarrow> s\<lparr>destroyed := destroyed s @ [stream c]\<rparr>
                | None \<Rightarrow> s)
      in s1\<lparr>fetched := fetched s1 @ [(range_start rng, range_end rng - range_start rng)],
            currentConnection :=
              Some \<lparr>stream = length (fetched s1), remainingRange = rng,
                    conn_range = rng, bytesRead = 0\<rparr>\<rparr>)"

text \<open>
  The filter over the read requests in \<open>_updateState\<close>: a request whose range the buffer
  holds is resolved with the slice and dropped, the others are kept, in order.
\<close>

fun resolve_requests ::
  "'b collaborators \<Rightarrow> ReadRequest list \<Rightarrow> 'b CachedFilelike \<Rightarrow>
   ReadRequest list \<times> 'b CachedFilelike" where
  "resolve_requests d [] s = ([], s)"
| "resolve_requests d (r # rs) s =
     (if \<not> hasData d (virtualBuffer s) (range_start (req_range r)) (range_end (req_range r))
      then (case resolve_requests d rs s of (keep, s') \<Rightarrow> (r # keep, s'))
      else
        (case slice d (virtualBuffer s) (range_start (req_range r)) (range_end (req_range r)) of
           (buffer, vb) \<Rightarrow>
             resolve_requests d rs
               (s\<lparr>lastResolvedCallbackEnd := Some (range_end (req_range r)),
                  virtualBuffer := vb,
                  promises := settle (req_promise r) (Fulfilled buffer) (promises s)\<rparr>)))"

text \<open>\<open>_updateState\<close>; \<open>size()\<close> throws when the file has not been opened.\<close>

definition updateState ::
  "'b collaborators \<Rightarrow> 'b CachedFilelike \<Rightarrow> error + 'b CachedFilelike" where
  "updateState d s =
     (if closedFlag s then Inr s
      else
        (case resolve_requests d (readRequests s) s of
           (keep, s1) \<Rightarrow>
             let s2 = s1\<lparr>readRequests := keep\<rparr> in
             (case fileSize s2 of
                None \<Rightarrow> Inl NotOpened
              | Some fsize \<Rightarrow>
                  (case getNewConnection d
                          \<lparr>arg_currentRemainingRange =
                             map_option remainingRange (currentConnection s2),
                           arg_readRequestRange =
                             (case readRequests s2 of [] \<Rightarrow> None | r # rs \<Rightarrow> Some (req_range r)),
                           arg_downloadedRanges = getRangesWithData d (virtualBuffer s2),
                           arg_lastResolvedCallbackEnd = lastResolvedCallbackEnd s2,
                           arg_maxRequestSize = cacheSizeInBytes s2,
                           arg_fileSize = fsize,
                           arg_continueDownloadingThreshold =
                             CLOSE_ENOUGH_BYTES_TO_NOT_START_NEW_CONNECTION\<rparr> of
                     None \<Rightarrow> Inr s2
                   | Some newConnection \<Rightarrow> Inr (setConnection newConnection s2)))))"

subsection \<open>The stream's handlers\<close>

text \<open>
  The end of the error handler: the connection is marked as destroyed and the state update
  tries again. \<open>now\<close> is what \<open>Date.now()\<close> returns during the handler.
\<close>

definition retry ::
  "'b collaborators \<Rightarrow> Connection \<Rightarrow> int \<Rightarrow> 'b CachedFilelike \<Rightarrow> error + 'b CachedFilelike" where
  "retry d c now s =
     updateState d
       (s\<lparr>lastErrorTime := Some now, destroyed := destroyed s @ [stream c],
          currentConnection := None\<rparr>)"

text \<open>The handler of the \<open>error\<close> event of stream \<open>st\<close>.\<close>

definition stream_error ::
  "'b collaborators \<Rightarrow> nat \<Rightarrow> error \<Rightarrow> int \<Rightarrow> 'b CachedFilelike \<Rightarrow>
   error + 'b CachedFilelike" where
  "stream_error d st err now s =
     (case currentConnection s of
        None \<Rightarrow> Inr s
      | Some c \<Rightarrow>
          if st \<noteq> stream c then Inr s
          else if keepReconnectingCallback s
          then retry d c now
                 (if lastErrorTime s = None
                  then s\<lparr>reconnecting := reconnecting s @ [True]\<rparr> else s)
          else
            (case lastErrorTime s of
               None \<Rightarrow> retry d c now s
             | Some lastError \<Rightarrow>
                 if now - lastError < 100
                 then Inr (s\<lparr>closedFlag := True,
                             promises :=
                               fold (\<lambda>request. settle (req_promise request) (RejectedWith err))
                                 (readRequests s) (promises s)\<rparr>)
                 else retry d c now s))"

text \<open>The handler of the \<open>data\<close> event of stream \<open>st\<close> (the logging left out).\<close>

definition stream_data ::
  "'b collaborators \<Rightarrow> nat \<Rightarrow> bytes \<Rightarrow> 'b CachedFilelike \<Rightarrow> error + 'b CachedFilelike" where
  "stream_data d st chunk s =
     (case currentConnection s of
        None \<Rightarrow> Inr s
      | Some c \<Rightarrow>
          if st \<noteq> stream c then Inr s
          else
            let s1 = (case lastErrorTime s of
                        None \<Rightarrow> s
                      | Some t \<Rightarrow>
                          s\<lparr>lastErrorTime := None,
                            reconnecting :=
                              (if keepReconnectingCallback s then reconnecting s @ [False]
                               else reconnecting s)\<rparr>);
                s2 = s1\<lparr>virtualBuffer :=
                          copyFrom d (virtualBuffer s1) chunk (range_start (remainingRange c))\<rparr>;
                read = bytesRead c + int (length chunk);
                s3 = (if hasData d (virtualBuffer s2)
                           (range_start (conn_range c)) (range_end (conn_range c))
                      then s2\<lparr>destroyed := destroyed s2 @ [st], currentConnection := None\<rparr>
                      else s2\<lparr>currentConnection :=
                                Some (c\<lparr>remainingRange :=
                                          \<lparr>range_start = range_start (conn_range c) + read,
                                           range_end = range_end (conn_range c)\<rparr>,
                                        bytesRead := read\<rparr>)\<rparr>)
            in updateState d s3)"

subsection \<open>read\<close>

text \<open>
  \<open>read\<close> throws (\<open>Inl\<close>) or returns a promise: one that is settled by the time the
  continuation of \<open>open\<close> has run, or the promise of a queued request, by its position
  among the promises. \<open>opened\<close> is what \<open>fileReader.open()\<close> settles with if it is called.
\<close>

datatype read_promise = Settled promise | Queued nat

definition read ::
  "'b collaborators \<Rightarrow> error + int \<Rightarrow> int \<Rightarrow> int \<Rightarrow> int \<Rightarrow> 'b CachedFilelike \<Rightarrow>
   error + read_promise \<times> 'b CachedFilelike" where
  "read d opened now offset len s =
     (if len = 0 then Inr (Settled (Fulfilled []), s)
      else if offset < 0 \<or> len < 0 then Inl InvalidInput
      else if (case cacheSizeInBytes s of None \<Rightarrow> False | Some c \<Rightarrow> len > c)
      then Inl MoreThanCacheSize
      else
        (case open_file d opened s of
           Inl e \<Rightarrow> Inr (Settled (RejectedWith e), s)
         | Inr s1 \<Rightarrow>
             (case fileSize s1 of
                None \<Rightarrow> Inr (Settled (RejectedWith NotOpened), s1)
              | Some fsize \<Rightarrow>
                  if offset + len > fsize then Inr (Settled (RejectedWith ReadPastSize), s1)
                  else
                    let i = length (promises s1);
                        s2 = s1\<lparr>promises := promises s1 @ [Pending],
                                readRequests := readRequests s1 @
                                  [\<lparr>req_range = \<lparr>range_start = offset, range_end = offset + len\<rparr>,
                                    req_promise = i, requestTime = now\<rparr>]\<rparr>
                    in (case updateState d s2 of
                          Inr s3 \<Rightarrow> Inr (Queued i, s3)
                        | Inl e \<Rightarrow>
                            Inr (Queued i,
                                 s2\<lparr>promises := settle i (RejectedWith e) (promises s2)\<rparr>)))))"

subsection \<open>Histories of the reader\<close>

text \<open>
  What can happen to a reader: a call of \<open>read\<close>, and the \<open>error\<close> and \<open>data\<close> events of
  a stream. A call that throws leaves the reader as it was.
\<close>

datatype reader_event =
    Read "error + int" int int int
  | StreamError nat error int
  | StreamData nat bytes

fun reader_step ::
  "'b collaborators \<Rightarrow> reader_event \<Rightarrow> 'b CachedFilelike \<Rightarrow> 'b CachedFilelike" where
  "reader_step d (Read opened now offset len) s =
     (case read d opened now offset len s of Inl e \<Rightarrow> s | Inr (p, s') \<Rightarrow> s')"
| "reader_step d (StreamError st err now) s =
     (case stream_error d st err now s of Inl e \<Rightarrow> s | Inr s' \<Rightarrow> s')"
| "reader_step d (StreamData st chunk) s =
     (case stream_data d st chunk s of Inl e \<Rightarrow> s | Inr s' \<Rightarrow> s')"

fun reader_run ::
  "'b collaborators \<Rightarrow> reader_event list \<Rightarrow> 'b CachedFilelike \<Rightarrow> 'b CachedFilelike" where
  "reader_run d [] s = s"
| "reader_run d (e # es) s = reader_run d es (reader_step d e s)"

subsection \<open>Example collaborators\<close>

text \<open>
  For the examples: a buffer that only records the ranges written to it, and a policy
  that opens a connection for the first waiting request when no connection is open.
\<close>

definition example_collaborators :: "Range list collaborators" where
  "example_collaborators =
     \<lparr>new_VirtualLRUBuffer = (\<lambda>options. []),
      hasData = (\<lambda>b from to. list_ex (\<lambda>r. range_start r \<le> from \<and> to \<le> range_end r) b),
      slice = (\<lambda>b from to. (replicate (nat (to - from)) 0, b)),
      copyFrom = (\<lambda>b chunk offset.
                   b @ [\<lparr>range_start = offset, range_end = offset + int (length chunk)\<rparr>]),
      getRangesWithData = (\<lambda>b. b),
      getNewConnection = (\<lambda>a. case arg_currentRemainingRange a of
                                  Some c \<Rightarrow> None
                                | None \<Rightarrow> arg_readRequestRange a)\<rparr>"

text \<open>
  For the example of \<open>open\<close>: a buffer that is nothing but the options it was built with.
\<close>

definition options_collaborators :: "VirtualLRUBuffer_options collaborators" where
  "options_collaborators =
     \<lparr>new_VirtualLRUBuffer = (\<lambda>options. options),
      hasData = (\<lambda>b from to. False),
      slice = (\<lambda>b from to. ([], b)),
      copyFrom = (\<lambda>b chunk offset. b),
      getRangesWithData = (\<lambda>b. []),
      getNewConnection = (\<lambda>a. None)\<rparr>"

text \<open>
  A reader without a cache limit and without a reconnect callback, and the same reader
  with the callback; a read of the first 100 bytes of a file of 1000 opens stream 0.
\<close>

definition example_reader :: "bool \<Rightarrow> Range list CachedFilelike" where
  "example_reader callback =
     reader_run example_collaborators [Read (Inr 1000) 0 0 100]
       (new_CachedFilelike example_collaborators None callback)"

subsection \<open>Properties of histories\<close>

text \<open>
  From one list of promises to a later one no promise has been rejected: each promise is
  as it was, or was pending and has been fulfilled.
\<close>

definition only_fulfils :: "promise list \<Rightarrow> promise list \<Rightarrow> bool" where
  "only_fulfils ps ps' =
     list_all2 (\<lambda>p p'. p' = p \<or> (p = Pending \<and> (case p' of Fulfilled b \<Rightarrow> True | _ \<Rightarrow> False)))
       ps ps'"

text \<open>
  After a state update the connection is the one there was, or a connection on a stream
  just fetched, the one there was having been destroyed.
\<close>

definition reconnected :: "'b CachedFilelike \<Rightarrow> 'b CachedFilelike \<Rightarrow> bool" where
  "reconnected s s' =
     (case currentConnection s' of
        None \<Rightarrow> False
      | Some c' \<Rightarrow>
          stream c' = length (fetched s) \<and> remainingRange c' = conn_range c' \<and>
          bytesRead c' = 0 \<and>
          fetched s' = fetched s @
            [(range_start (conn_range c'), range_end (conn_range c') - range_start (conn_range c'))] \<and>
          destroyed s' = destroyed s @
            (case currentConnection s of None \<Rightarrow> [] | Some c \<Rightarrow> [stream c]))"

definition same_connection :: "'b CachedFilelike \<Rightarrow> 'b CachedFilelike \<Rightarrow> bool" where
  "same_connection s s' =
     (currentConnection s' = currentConnection s \<and> fetched s' = fetched s \<and>
      destroyed s' = destroyed s)"

section \<open>Verification of BufferedIterableSource\<close>

subsection \<open>Order of the results\<close>

lemma covers_snoc: "covers Y p \<Longrightarrow> covers (Y @ [x]) (p @ [x])"
  by (induction Y p rule: covers.induct) auto

lemma covers_Nil2: "covers Y [] \<Longrightarrow> Y = []"
  by (cases Y) auto

lemma covers_again: "covers Y p \<Longrightarrow> p \<noteq> [] \<Longrightarrow> last p = x \<Longrightarrow> is_stamp x \<Longrightarrow> covers (Y @ [x]) p"
  by (induction Y p rule: covers.induct) (auto dest: covers_Nil2 split: if_splits)

lemma covers_follows: "covers Y p \<Longrightarrow> follows Y (p @ q)"
  by (induction Y p rule: covers.induct) auto

lemma follows_append: "follows (Y1 @ Y2) S \<Longrightarrow> follows Y1 S"
  by (induction Y1 S rule: follows.induct) auto

lemma follows_set: "follows Y S \<Longrightarrow> set Y \<subseteq> set S"
  by (induction Y S rule: follows.induct) auto

lemma follows_sorted: "follows Y S \<Longrightarrow> sorted (map resultTime S) \<Longrightarrow> sorted (map resultTime Y)"
proof (induction Y S rule: follows.induct)
  case (3 y ys x xs)
  from 3(3) have yx: "y = x" by simp
  from 3(4) have le: "\<forall>z\<in>set xs. resultTime x \<le> resultTime z" and sxs: "sorted (map resultTime xs)"
    by auto
  from 3(3) consider (a) "follows ys xs" | (b) "is_stamp x" "follows ys (x # xs)" by auto
  then show ?case
  proof cases
    case a
    with 3(1) sxs have "sorted (map resultTime ys)" by simp
    moreover from a have "set ys \<subseteq> set xs" by (rule follows_set)
    ultimately show ?thesis using yx le by auto
  next
    case b
    with 3(2) 3(4) have "sorted (map resultTime ys)" by simp
    moreover from b(2) have "set ys \<subseteq> set (x # xs)" by (rule follows_set)
    ultimately show ?thesis using yx le by auto
  qed
qed simp_all


lemma readSignal_fields [simp]:
  "cache (readSignal_notifyAll s) = cache s"
  "yielded (readSignal_notifyAll s) = yielded s"
  "producer (readSignal_notifyAll s) = producer s"
  "sourceIterator (readSignal_notifyAll s) = sourceIterator s"
  "readHead (readSignal_notifyAll s) = readHead s"
  "readAheadDuration (readSignal_notifyAll s) = readAheadDuration s"
  "readDone (readSignal_notifyAll s) = readDone s"
  "aborted (readSignal_notifyAll s) = aborted s"
  "topics (readSignal_notifyAll s) = topics s"
  "sourceThrows (readSignal_notifyAll s) = sourceThrows s"
  "initResult (readSignal_notifyAll s) = initResult s"
  "stopCalls (readSignal_notifyAll s) = stopCalls s"
  by (simp_all add: readSignal_notifyAll_def)

lemma readSignal_consumer:
  "consumer (readSignal_notifyAll s) = (if consumer s = ReadWait then ReadWoken else consumer s)"
  by (simp add: readSignal_notifyAll_def)

lemma writeSignal_fields [simp]:
  "cache (writeSignal_notifyAll s) = cache s"
  "yielded (writeSignal_notifyAll s) = yielded s"
  "consumer (writeSignal_notifyAll s) = consumer s"
  "sourceIterator (writeSignal_notifyAll s) = sourceIterator s"
  "readHead (writeSignal_notifyAll s) = readHead s"
  "readAheadDuration (writeSignal_notifyAll s) = readAheadDuration s"
  "readDone (writeSignal_notifyAll s) = readDone s"
  "aborted (writeSignal_notifyAll s) = aborted s"
  "topics (writeSignal_notifyAll s) = topics s"
  "sourceThrows (writeSignal_notifyAll s) = sourceThrows s"
  "initResult (writeSignal_notifyAll s) = initResult s"
  "stopCalls (writeSignal_notifyAll s) = stopCalls s"
  by (simp_all add: writeSignal_notifyAll_def split: option.splits producer_task.splits)

lemma writeSignal_live [simp]:
  "producer_live (writeSignal_notifyAll s) = producer_live s"
  "stamp_held (writeSignal_notifyAll s) = stamp_held s"
  by (simp_all add: writeSignal_notifyAll_def producer_live_def stamp_held_def
      split: option.splits producer_task.splits)

lemma order_inv_cong:
  assumes "order_inv S s"
    and "yielded s' @ cache s' = yielded s @ cache s"
    and "producer_live s' \<longrightarrow> producer_live s \<and> sourceIterator s' = sourceIterator s"
    and "\<forall>t. stamp_held s' = Some t \<longrightarrow> stamp_held s = Some t"
  shows "order_inv S s'"
  using assms unfolding order_inv_def by metis

lemma order_invI:
  assumes "S = p @ q" "covers (yielded s @ cache s) p"
    and "producer_live s \<Longrightarrow> q = sourceIterator s"
    and "\<And>t. stamp_held s = Some t \<Longrightarrow> p \<noteq> [] \<and> last p = stamp t"
  shows "order_inv S s"
  using assms unfolding order_inv_def by blast

lemma order_inv_stamp_loop:
  assumes "order_inv S s" "stamp_held s = Some t"
  shows "order_inv S (stamp_loop t s)"
proof -
  from assms obtain p q where pq: "S = p @ q" "covers (yielded s @ cache s) p"
    "producer_live s \<longrightarrow> q = sourceIterator s" "p \<noteq> []" "last p = stamp t"
    unfolding order_inv_def by blast
  from assms(2) have live: "producer_live s"
    by (auto simp: stamp_held_def producer_live_def split: option.splits producer_task.splits)
  have again: "covers ((yielded s @ cache s) @ [stamp t]) p"
    using pq(2,4,5) by (intro covers_again) simp_all
  show ?thesis
  proof (rule order_invI[of _ p q])
    show "S = p @ q" by (rule pq(1))
    show "covers (yielded (stamp_loop t s) @ cache (stamp_loop t s)) p"
      using again pq(2) by (simp add: stamp_loop_def Let_def)
    show "q = sourceIterator (stamp_loop t s)"
      using pq(3) live by (simp add: stamp_loop_def Let_def)
    show "p \<noteq> [] \<and> last p = stamp t'" if "stamp_held (stamp_loop t s) = Some t'" for t'
      using that pq(4,5) by (simp add: stamp_loop_def Let_def stamp_held_def split: if_splits)
  qed
qed

lemma order_inv_pull:
  assumes "order_inv S s" "producer s = Some AwaitNext" "sourceIterator s = r # rest"
  shows "order_inv S (loop_body r (s\<lparr>sourceIterator := rest\<rparr>))"
proof -
  from assms obtain p where pq: "S = p @ r # rest" "covers (yielded s @ cache s) p"
    unfolding order_inv_def by (auto simp: producer_live_def)
  have c: "covers ((yielded s @ cache s) @ [r]) (p @ [r])"
    using pq(2) by (rule covers_snoc)
  let ?s' = "loop_body r (s\<lparr>sourceIterator := rest\<rparr>)"
  show ?thesis
  proof (cases "aborted s")
    case True
    show ?thesis
    proof (rule order_invI[of _ p "r # rest"])
      show "S = p @ r # rest" by (rule pq(1))
      show "covers (yielded ?s' @ cache ?s') p"
        using True pq(2) by (simp add: loop_body_def producer_finally_def)
      show "r # rest = sourceIterator ?s'" if "producer_live ?s'"
        using that True by (simp add: loop_body_def producer_finally_def producer_live_def)
      show "p \<noteq> [] \<and> last p = stamp t" if "stamp_held ?s' = Some t" for t
        using that True by (simp add: loop_body_def producer_finally_def stamp_held_def)
    qed
  next
    case False
    show ?thesis
    proof (rule order_invI[of _ "p @ [r]" rest])
      show "S = (p @ [r]) @ rest" using pq(1) by simp
      show "covers (yielded ?s' @ cache ?s') (p @ [r])"
        using False c by (cases r) (simp_all add: loop_body_def stamp_loop_def Let_def)
      show "rest = sourceIterator ?s'"
        using False by (cases r) (simp_all add: loop_body_def stamp_loop_def Let_def)
      show "p @ [r] \<noteq> [] \<and> last (p @ [r]) = stamp t" if "stamp_held ?s' = Some t" for t
        using that False
        by (cases r) (simp_all add: loop_body_def stamp_loop_def Let_def stamp_held_def
            split: if_splits)
    qed
  qed
qed

lemma order_inv_producer_turn: "order_inv S s \<Longrightarrow> order_inv S (producer_turn s)"
proof -
  assume inv: "order_inv S s"
  show ?thesis
  proof (cases "producer s")
    case None
    then show ?thesis using inv by (simp add: producer_turn_def)
  next
    case (Some pt)
    show ?thesis
    proof (cases pt)
      case AwaitNext
      show ?thesis
      proof (cases "sourceIterator s")
        case Nil
        have "order_inv S (producer_finally (if sourceThrows s then Rejected else Resolved) s)"
          by (rule order_inv_cong[OF inv])
             (simp_all add: producer_finally_def producer_live_def stamp_held_def)
        then show ?thesis using Some AwaitNext Nil by (simp add: producer_turn_def)
      next
        case (Cons r rest)
        then show ?thesis using Some AwaitNext order_inv_pull[OF inv _ Cons]
          by (simp add: producer_turn_def)
      qed
    next
      case (StampWoken t)
      then show ?thesis using Some order_inv_stamp_loop[OF inv, of t]
        by (simp add: producer_turn_def stamp_held_def)
    next
      case WriteWoken
      have "order_inv S (s\<lparr>producer := Some AwaitNext\<rparr>)"
        by (rule order_inv_cong[OF inv])
           (simp_all add: producer_live_def stamp_held_def Some WriteWoken)
      then show ?thesis using Some WriteWoken by (simp add: producer_turn_def)
    qed (use Some inv in \<open>simp_all add: producer_turn_def\<close>)
  qed
qed


lemma writeSignal_producer:
  "producer (writeSignal_notifyAll s) =
     (case producer s of
        Some (StampWait t) \<Rightarrow> Some (StampWoken t)
      | Some WriteWait \<Rightarrow> Some WriteWoken
      | x \<Rightarrow> x)"
  by (simp add: writeSignal_notifyAll_def split: option.splits producer_task.splits)

lemma order_inv_finally: "order_inv S s \<Longrightarrow> order_inv S (generator_finally s)"
  by (erule order_inv_cong)
     (simp_all add: generator_finally_def stopProducer_def producer_live_def stamp_held_def writeSignal_producer
       split: option.splits producer_task.splits)

lemma order_inv_resume: "order_inv S s \<Longrightarrow> order_inv S (stopProducer_resume s)"
  by (erule order_inv_cong)
     (simp_all add: stopProducer_resume_def producer_live_def stamp_held_def
       split: option.splits producer_task.splits)

lemma order_inv_generator_loop: "order_inv S s \<Longrightarrow> order_inv S (generator_loop s)"
proof (cases "cache s")
  case Nil
  assume "order_inv S s"
  then show ?thesis using Nil order_inv_finally[of S s]
    by (auto simp: generator_loop_def elim!: order_inv_cong
        simp: producer_live_def stamp_held_def)
next
  case (Cons item rest)
  assume inv: "order_inv S s"
  have "order_inv S ((writeSignal_notifyAll (s\<lparr>cache := rest, readHead := resultTime item\<rparr>))
            \<lparr>yielded := yielded s @ [item], consumer := AtYield\<rparr>)"
    by (rule order_inv_cong[OF inv])
       (simp_all add: Cons producer_live_def stamp_held_def writeSignal_producer
         split: option.splits producer_task.splits)
  then show ?thesis using Cons by (simp add: generator_loop_def)
qed

lemma order_inv_call: "order_inv S s \<Longrightarrow> order_inv S (stopProducer_call s)"
  by (erule order_inv_cong)
     (simp_all add: stopProducer_call_def stopProducer_def producer_live_def stamp_held_def
       writeSignal_producer split: option.splits producer_task.splits)

lemma order_inv_call_resume: "order_inv S s \<Longrightarrow> order_inv S (stopProducer_call_resume s)"
  by (erule order_inv_cong)
     (simp_all add: stopProducer_call_resume_def producer_live_def stamp_held_def
       split: option.splits producer_task.splits)

lemma order_inv_step: "order_inv S s \<Longrightarrow> order_inv S (step e s)"
proof (cases e)
  case ProducerTurn
  assume "order_inv S s"
  then show ?thesis using ProducerTurn by (simp add: order_inv_producer_turn)
next
  case Next
  assume "order_inv S s"
  then show ?thesis using Next
    by (simp add: order_inv_generator_loop order_inv_finally split: consumer_task.splits)
next
  case ConsumerTurn
  assume "order_inv S s"
  then show ?thesis using ConsumerTurn
    by (simp add: order_inv_generator_loop order_inv_resume
        split: consumer_task.splits)
next
  case Return
  assume inv: "order_inv S s"
  have "order_inv S (s\<lparr>consumer := Completed\<rparr>)"
    by (rule order_inv_cong[OF inv]) (simp_all add: producer_live_def stamp_held_def)
  then show ?thesis using Return inv
    by (simp add: order_inv_finally split: consumer_task.splits)
next
  case Stop
  assume "order_inv S s"
  then show ?thesis using Stop by (simp add: order_inv_call)
next
  case StopTurn
  assume "order_inv S s"
  then show ?thesis using StopTurn by (simp add: order_inv_call_resume)
qed

lemma order_inv_run: "order_inv S s \<Longrightarrow> order_inv S (run evs s)"
  by (induction evs arbitrary: s) (simp_all add: order_inv_step)

lemma order_inv_follows: "order_inv S s \<Longrightarrow> follows (yielded s) S"
  unfolding order_inv_def using covers_follows follows_append by blast

lemma producer_turn_consumer:
  "consumer (producer_turn s) = consumer s \<or>
   (consumer s = ReadWait \<and> consumer (producer_turn s) = ReadWoken)"
  by (simp add: producer_turn_def loop_body_def stamp_loop_def producer_finally_def Let_def
      readSignal_consumer split: option.splits producer_task.splits list.splits)

lemma producer_turn_keeps [simp]:
  "yielded (producer_turn s) = yielded s"
  "topics (producer_turn s) = topics s"
  "readHead (producer_turn s) = readHead s"
  "readAheadDuration (producer_turn s) = readAheadDuration s"
  "aborted (producer_turn s) = aborted s"
  "initResult (producer_turn s) = initResult s"
  "stopCalls (producer_turn s) = stopCalls s"
  by (simp_all add: producer_turn_def loop_body_def stamp_loop_def producer_finally_def Let_def
      split: option.splits producer_task.splits list.splits)

lemma idle_inv_step: "idle_inv s \<Longrightarrow> idle_inv (step e s)"
proof (cases e)
  case ProducerTurn
  assume "idle_inv s"
  then show ?thesis using ProducerTurn producer_turn_consumer[of s]
    by (auto simp: idle_inv_def)
next
  case Next
  assume "idle_inv s"
  then show ?thesis using Next
    by (auto simp: idle_inv_def generator_finally_def stopProducer_def)
next
  case ConsumerTurn
  assume "idle_inv s"
  then show ?thesis using ConsumerTurn
    by (auto simp: idle_inv_def stopProducer_resume_def split: option.splits producer_task.splits)
next
  case Return
  assume "idle_inv s"
  then show ?thesis using Return
    by (auto simp: idle_inv_def)
next
  case Stop
  assume "idle_inv s"
  then show ?thesis using Stop
    by (auto simp: idle_inv_def stopProducer_call_def stopProducer_def)
next
  case StopTurn
  assume "idle_inv s"
  then show ?thesis using StopTurn
    by (auto simp: idle_inv_def stopProducer_call_resume_def
        split: option.splits producer_task.splits)
qed

lemma idle_inv_run: "idle_inv s \<Longrightarrow> idle_inv (run evs s)"
  by (induction evs arbitrary: s) (simp_all add: idle_inv_step)

lemma messageIterator_inv:
  assumes "messageIterator args src throws s0 = Inr s"
  shows "order_inv src s \<or> idle_inv s"
proof (cases "length (args_topics args) = 0")
  case True
  then have "idle_inv s" using assms
    by (auto simp: messageIterator_def startProducer_def idle_inv_def Let_def
        split: option.splits)
  then show ?thesis ..
next
  case False
  then have s: "yielded s = []" "cache s = []" "producer s = Some AwaitNext"
    "sourceIterator s = src"
    using assms
    by (auto simp: messageIterator_def startProducer_def Let_def split: option.splits)
  have "order_inv src s"
    by (rule order_invI[of _ "[]" src]) (simp_all add: s stamp_held_def)
  then show ?thesis ..
qed

subsection \<open>The producer's exits\<close>

lemma stamp_loop_not_settled:
  "producer (stamp_loop t s) \<noteq> Some Resolved" "producer (stamp_loop t s) \<noteq> Some Rejected"
  by (simp_all add: stamp_loop_def Let_def)

lemma loop_body_settled:
  "producer_settled (loop_body r s) \<Longrightarrow> loop_body r s = producer_finally Resolved s"
  by (simp add: loop_body_def stamp_loop_not_settled Let_def producer_settled_def
      split: if_splits)

lemma settle_inv_finally: "settle_inv (producer_finally outcome s)"
  by (simp add: settle_inv_def producer_finally_def readSignal_consumer)

lemma producer_turn_settles:
  assumes "\<not> producer_settled s" "producer_settled (producer_turn s)"
  shows "\<exists>outcome u. producer_turn s = producer_finally outcome u"
proof (cases "producer s")
  case None
  then show ?thesis using assms by (simp add: producer_turn_def)
next
  case (Some pt)
  show ?thesis
  proof (cases pt)
    case AwaitNext
    show ?thesis
    proof (cases "sourceIterator s")
      case Nil
      then show ?thesis using Some AwaitNext by (auto simp add: producer_turn_def)
    next
      case (Cons r rest)
      then show ?thesis using Some AwaitNext assms(2) loop_body_settled[of r "s\<lparr>sourceIterator := rest\<rparr>"]
        by (auto simp add: producer_turn_def)
    qed
  next
    case (StampWoken t)
    then show ?thesis using Some assms(2) stamp_loop_not_settled[of t s]
      by (simp add: producer_turn_def producer_settled_def)
  qed (use Some assms in \<open>simp_all add: producer_turn_def producer_settled_def\<close>)
qed

lemma settle_inv_producer_turn: "settle_inv s \<Longrightarrow> settle_inv (producer_turn s)"
proof (cases "producer_settled s")
  case True
  assume "settle_inv s"
  moreover from True have "producer_turn s = s"
    by (auto simp: producer_settled_def producer_turn_def)
  ultimately show ?thesis by simp
next
  case False
  show ?thesis
  proof (cases "producer_settled (producer_turn s)")
    case True
    with False obtain outcome u where "producer_turn s = producer_finally outcome u"
      using producer_turn_settles by blast
    then show ?thesis by (simp add: settle_inv_finally)
  next
    case False
    then show ?thesis by (simp add: settle_inv_def)
  qed
qed

lemma settled_writeSignal [simp]: "producer_settled (writeSignal_notifyAll s) = producer_settled s"
  by (simp add: producer_settled_def writeSignal_producer split: option.splits producer_task.splits)

lemma settle_inv_generator_finally: "settle_inv s \<Longrightarrow> settle_inv (generator_finally s)"
  by (simp add: settle_inv_def generator_finally_def stopProducer_def producer_settled_def writeSignal_producer
      split: option.splits producer_task.splits)

lemma settle_inv_resume: "settle_inv s \<Longrightarrow> settle_inv (stopProducer_resume s)"
  by (simp add: settle_inv_def stopProducer_resume_def producer_settled_def
      split: option.splits producer_task.splits)

lemma settle_inv_generator_loop: "settle_inv s \<Longrightarrow> settle_inv (generator_loop s)"
proof (cases "cache s")
  case Nil
  assume "settle_inv s"
  then show ?thesis using Nil settle_inv_generator_finally[of s]
    by (simp add: generator_loop_def) (auto simp add: settle_inv_def producer_settled_def)
next
  case (Cons item rest)
  assume "settle_inv s"
  then show ?thesis using Cons
    by (simp add: generator_loop_def settle_inv_def producer_settled_def writeSignal_producer
      split: option.splits producer_task.splits)
qed

lemma settle_inv_call: "settle_inv s \<Longrightarrow> settle_inv (stopProducer_call s)"
  by (simp add: settle_inv_def stopProducer_call_def stopProducer_def producer_settled_def
      writeSignal_producer split: option.splits producer_task.splits)

lemma settle_inv_call_resume: "settle_inv s \<Longrightarrow> settle_inv (stopProducer_call_resume s)"
  by (simp add: settle_inv_def stopProducer_call_resume_def producer_settled_def
      split: option.splits producer_task.splits)

lemma settle_inv_step: "settle_inv s \<Longrightarrow> settle_inv (step e s)"
proof (cases e)
  case ProducerTurn
  assume "settle_inv s"
  then show ?thesis using ProducerTurn by (simp add: settle_inv_producer_turn)
next
  case Next
  assume "settle_inv s"
  then show ?thesis using Next
    by (simp add: settle_inv_generator_loop settle_inv_generator_finally split: consumer_task.splits)
next
  case ConsumerTurn
  assume "settle_inv s"
  then show ?thesis using ConsumerTurn
    by (simp add: settle_inv_generator_loop settle_inv_resume split: consumer_task.splits)
next
  case Return
  assume inv: "settle_inv s"
  then have "settle_inv (s\<lparr>consumer := Completed\<rparr>)"
    by (simp add: settle_inv_def producer_settled_def)
  then show ?thesis using Return inv
    by (simp add: settle_inv_generator_finally split: consumer_task.splits)
next
  case Stop
  assume "settle_inv s"
  then show ?thesis using Stop by (simp add: settle_inv_call)
next
  case StopTurn
  assume "settle_inv s"
  then show ?thesis using StopTurn by (simp add: settle_inv_call_resume)
qed

lemma settle_inv_run: "settle_inv s \<Longrightarrow> settle_inv (run evs s)"
  by (induction evs arbitrary: s) (simp_all add: settle_inv_step)

lemma messageIterator_settle_inv:
  "messageIterator args src throws s0 = Inr s \<Longrightarrow> settle_inv s"
  by (auto simp: messageIterator_def startProducer_def settle_inv_def producer_settled_def Let_def
      split: option.splits if_splits)

lemma example_session_Inr:
  "messageIterator example_args src throws example_instance = Inr (example_session src throws)"
  by (simp add: example_session_def messageIterator_def example_instance_def initialize_def
      new_BufferedIterableSource_def)

subsection \<open>The read-ahead bound\<close>

lemma within_horizon_cong:
  "readHead s' = readHead s \<Longrightarrow> readAheadDuration s' = readAheadDuration s \<Longrightarrow>
   within_horizon s' = within_horizon s"
  by (simp add: within_horizon_def fun_eq_iff)

lemma read_ahead_bound_snoc:
  "list_all (within_horizon s) c \<Longrightarrow> cache s' = c @ [x] \<Longrightarrow> within_horizon s' = within_horizon s
   \<Longrightarrow> read_ahead_bound s'"
  by (simp add: read_ahead_bound_def)

lemma list_all_bound:
  "list_all (within_horizon s) (cache s) \<Longrightarrow> read_ahead_bound s"
  by (cases "cache s" rule: rev_cases) (simp_all add: read_ahead_bound_def)

lemma producer_turn_appends:
  "cache (producer_turn u) = cache u \<or>
   (\<exists>x. cache (producer_turn u) = cache u @ [x] \<and>
        (\<not> within_horizon u x \<longrightarrow> producer_blocked (producer_turn u)))"
proof (cases "producer u")
  case None
  then show ?thesis by (simp add: producer_turn_def)
next
  case (Some pt)
  show ?thesis
  proof (cases pt)
    case AwaitNext
    show ?thesis
    proof (cases "sourceIterator u")
      case Nil
      then show ?thesis using Some AwaitNext by (simp add: producer_turn_def producer_finally_def)
    next
      case (Cons r rest)
      then show ?thesis using Some AwaitNext
        by (cases r)
           (simp_all add: producer_turn_def loop_body_def stamp_loop_def producer_finally_def
             Let_def producer_blocked_def within_horizon_def compare_def addTime_def)
    qed
  next
    case (StampWoken t)
    then show ?thesis using Some
      by (simp add: producer_turn_def stamp_loop_def Let_def producer_blocked_def)
  qed (use Some in \<open>simp_all add: producer_turn_def\<close>)
qed

lemma producer_blocked_stays: "producer_blocked u \<Longrightarrow> producer_turn u = u"
  by (simp add: producer_blocked_def producer_turn_def split: option.splits producer_task.splits)


lemma loop_body_enqueues:
  assumes "\<not> aborted s"
  shows "\<exists>p. loop_body r s = (readSignal_notifyAll (s\<lparr>cache := cache s @ [r]\<rparr>))\<lparr>producer := Some p\<rparr> \<and>
            (p = AwaitNext \<and> within_horizon s r \<or> p = WriteWait \<or> (\<exists>t. p = StampWait t))"
  using assms
  by (cases r)
     (auto simp add: loop_body_def stamp_loop_def Let_def within_horizon_def compare_def
       addTime_def)

lemma fresh_invI:
  assumes "yielded s = [] \<Longrightarrow> \<not> aborted s \<Longrightarrow> read_ahead_bound s \<and>
      (producer s = Some AwaitNext \<longrightarrow> list_all (within_horizon s) (cache s)) \<and>
      producer s \<noteq> Some WriteWoken \<and> (\<forall>t. producer s \<noteq> Some (StampWoken t))"
    and "readDone s \<longrightarrow> \<not> producer_live s"
    and "consumer s = AtYield \<longrightarrow> yielded s \<noteq> []"
    and "length (topics s) \<noteq> 0"
  shows "fresh_inv s"
  using assms unfolding fresh_inv_def by blast

lemma fresh_inv_enqueue:
  assumes inv: "fresh_inv s" and p: "producer s = Some AwaitNext"
    and q: "p = AwaitNext \<and> within_horizon s r \<or> p = WriteWait \<or> (\<exists>t. p = StampWait t)"
  shows "fresh_inv ((readSignal_notifyAll (s\<lparr>sourceIterator := rest, cache := cache s @ [r]\<rparr>))
           \<lparr>producer := Some p\<rparr>)"
proof -
  let ?s' = "(readSignal_notifyAll (s\<lparr>sourceIterator := rest, cache := cache s @ [r]\<rparr>))
           \<lparr>producer := Some p\<rparr>"
  have w: "within_horizon ?s' = within_horizon s"
    by (rule within_horizon_cong) simp_all
  from inv p have nd: "\<not> readDone s"
    by (auto simp: fresh_inv_def producer_live_def)
  have live: "producer_live ?s'"
    using q by (auto simp: producer_live_def)
  have first: "read_ahead_bound ?s' \<and>
      (producer ?s' = Some AwaitNext \<longrightarrow> list_all (within_horizon ?s') (cache ?s')) \<and>
      producer ?s' \<noteq> Some WriteWoken \<and> (\<forall>t. producer ?s' \<noteq> Some (StampWoken t))"
    if y: "yielded s = []" and na: "\<not> aborted s"
  proof -
    from inv p y na have all: "list_all (within_horizon s) (cache s)"
      by (simp add: fresh_inv_def)
    have "read_ahead_bound ?s'"
      by (rule read_ahead_bound_snoc[OF all _ w]) simp
    moreover have "producer ?s' = Some AwaitNext \<longrightarrow> list_all (within_horizon ?s') (cache ?s')"
      using q all w by auto
    moreover have "producer ?s' \<noteq> Some WriteWoken \<and> (\<forall>t. producer ?s' \<noteq> Some (StampWoken t))"
      using q by auto
    ultimately show ?thesis by blast
  qed
  have cons: "consumer ?s' = AtYield \<longrightarrow> yielded ?s' \<noteq> []"
    using inv by (simp add: fresh_inv_def readSignal_consumer)
  have top: "length (topics ?s') \<noteq> 0"
    using inv by (simp add: fresh_inv_def)
  have rd: "readDone ?s' \<longrightarrow> \<not> producer_live ?s'"
    using nd by simp
  have y': "yielded ?s' = yielded s" "aborted ?s' = aborted s" by simp_all
  show ?thesis
  proof (rule fresh_invI)
    assume "yielded ?s' = []" "\<not> aborted ?s'"
    then have "yielded s = []" "\<not> aborted s" using y' by simp_all
    then show "read_ahead_bound ?s' \<and>
      (producer ?s' = Some AwaitNext \<longrightarrow> list_all (within_horizon ?s') (cache ?s')) \<and>
      producer ?s' \<noteq> Some WriteWoken \<and> (\<forall>t. producer ?s' \<noteq> Some (StampWoken t))"
      by (rule first)
  qed (rule rd, rule cons, rule top)
qed

lemma fresh_inv_finally:
  assumes inv: "fresh_inv s" and o: "outcome = Resolved \<or> outcome = Rejected"
  shows "fresh_inv (producer_finally outcome (s\<lparr>sourceIterator := rest\<rparr>))"
proof -
  let ?s' = "producer_finally outcome (s\<lparr>sourceIterator := rest\<rparr>)"
  have w: "within_horizon ?s' = within_horizon s"
    by (rule within_horizon_cong) (simp_all add: producer_finally_def)
  have f: "cache ?s' = cache s" "yielded ?s' = yielded s" "topics ?s' = topics s"
    "producer ?s' = Some outcome" "aborted ?s' = aborted s"
    "consumer ?s' = (if consumer s = ReadWait then ReadWoken else consumer s)"
    by (simp_all add: producer_finally_def readSignal_consumer)
  have b: "read_ahead_bound ?s' = read_ahead_bound s"
    by (simp add: read_ahead_bound_def w f)
  show ?thesis
    using inv o unfolding fresh_inv_def b f producer_live_def by auto
qed

lemma fresh_inv_producer_turn: "fresh_inv s \<Longrightarrow> fresh_inv (producer_turn s)"
proof -
  assume inv: "fresh_inv s"
  show ?thesis
  proof (cases "producer s")
    case None
    then show ?thesis using inv by (simp add: producer_turn_def)
  next
    case (Some pt)
    show ?thesis
    proof (cases pt)
      case AwaitNext
      show ?thesis
      proof (cases "sourceIterator s")
        case Nil
        have "fresh_inv (producer_finally (if sourceThrows s then Rejected else Resolved)
                (s\<lparr>sourceIterator := []\<rparr>))"
          by (rule fresh_inv_finally[OF inv]) simp
        moreover have "s\<lparr>sourceIterator := []\<rparr> = s" using Nil by simp
        ultimately show ?thesis using Some AwaitNext Nil by (simp add: producer_turn_def)
      next
        case (Cons r rest)
        show ?thesis
        proof (cases "aborted s")
          case True
          have "fresh_inv (producer_finally Resolved (s\<lparr>sourceIterator := rest\<rparr>))"
            by (rule fresh_inv_finally[OF inv]) simp
          then show ?thesis using Some AwaitNext Cons True
            by (simp add: producer_turn_def loop_body_def)
        next
          case False
          then have "\<not> aborted (s\<lparr>sourceIterator := rest\<rparr>)" by simp
          from loop_body_enqueues[OF this, of r] obtain p where
            p: "loop_body r (s\<lparr>sourceIterator := rest\<rparr>) =
                (readSignal_notifyAll (s\<lparr>sourceIterator := rest, cache := cache s @ [r]\<rparr>))
                  \<lparr>producer := Some p\<rparr>"
              "p = AwaitNext \<and> within_horizon s r \<or> p = WriteWait \<or> (\<exists>t. p = StampWait t)"
            by (auto simp: within_horizon_def)
          have "fresh_inv (loop_body r (s\<lparr>sourceIterator := rest\<rparr>))"
            unfolding p(1) using inv _ p(2) by (rule fresh_inv_enqueue) (simp add: Some AwaitNext)
          then show ?thesis using Some AwaitNext Cons by (simp add: producer_turn_def)
        qed
      qed
    next
      case (StampWoken t)
      with Some inv have y: "yielded s \<noteq> [] \<or> aborted s" "\<not> readDone s"
        by (auto simp: fresh_inv_def producer_live_def)
      then show ?thesis using inv Some StampWoken
        by (auto simp add: fresh_inv_def producer_turn_def stamp_loop_def Let_def
            readSignal_consumer producer_live_def)
    next
      case WriteWoken
      with Some inv have y: "yielded s \<noteq> [] \<or> aborted s" "\<not> readDone s"
        by (auto simp: fresh_inv_def producer_live_def)
      then show ?thesis using inv Some WriteWoken
        by (auto simp add: fresh_inv_def producer_turn_def producer_live_def)
    qed (use Some inv in \<open>simp_all add: producer_turn_def\<close>)
  qed
qed


lemma not_live_writeSignal: "\<not> producer_live s \<Longrightarrow> writeSignal_notifyAll s = s"
  by (simp add: producer_live_def writeSignal_notifyAll_def
      split: option.splits producer_task.splits)

lemma fresh_inv_generator_finally: "fresh_inv s \<Longrightarrow> fresh_inv (generator_finally s)"
  by (simp add: fresh_inv_def generator_finally_def stopProducer_def producer_live_def
      writeSignal_producer split: option.splits producer_task.splits)

lemma fresh_inv_call: "fresh_inv s \<Longrightarrow> fresh_inv (stopProducer_call s)"
  by (simp add: fresh_inv_def stopProducer_call_def stopProducer_def producer_live_def
      writeSignal_producer split: option.splits producer_task.splits)

lemma fresh_inv_call_resume: "fresh_inv s \<Longrightarrow> fresh_inv (stopProducer_call_resume s)"
proof -
  assume inv: "fresh_inv s"
  have w: "within_horizon (s\<lparr>producer := None, stopCalls := n\<rparr>) = within_horizon s"
    "within_horizon (s\<lparr>stopCalls := n\<rparr>) = within_horizon s" for n
    by (rule within_horizon_cong, simp, simp)+
  show ?thesis using inv
    by (simp add: fresh_inv_def stopProducer_call_resume_def read_ahead_bound_def w
        producer_live_def split: option.splits producer_task.splits)
qed

lemma fresh_inv_resume: "fresh_inv s \<Longrightarrow> fresh_inv (stopProducer_resume s)"
proof -
  assume inv: "fresh_inv s"
  have w: "within_horizon (s\<lparr>producer := None, consumer := Completed\<rparr>) = within_horizon s"
    "within_horizon (s\<lparr>consumer := Completed\<rparr>) = within_horizon s"
    "within_horizon (s\<lparr>consumer := Threw\<rparr>) = within_horizon s"
    by (rule within_horizon_cong, simp, simp)+
  show ?thesis using inv
    by (simp add: fresh_inv_def stopProducer_resume_def read_ahead_bound_def w producer_live_def
        split: option.splits producer_task.splits)
qed

lemma fresh_inv_generator_loop: "fresh_inv s \<Longrightarrow> fresh_inv (generator_loop s)"
proof (cases "cache s")
  case Nil
  assume inv: "fresh_inv s"
  show ?thesis
  proof (cases "readDone s")
    case True
    then show ?thesis using Nil inv by (simp add: generator_loop_def fresh_inv_generator_finally)
  next
    case False
    have w: "within_horizon (s\<lparr>consumer := ReadWait\<rparr>) = within_horizon s"
      by (rule within_horizon_cong) simp_all
    show ?thesis using False Nil inv
      by (simp add: generator_loop_def fresh_inv_def read_ahead_bound_def w producer_live_def)
  qed
next
  case (Cons item rest)
  assume inv: "fresh_inv s"
  then show ?thesis using Cons
    by (simp add: generator_loop_def fresh_inv_def producer_live_def writeSignal_producer
        split: option.splits producer_task.splits)
qed

lemma fresh_inv_step: "fresh_inv s \<Longrightarrow> fresh_inv (step e s)"
proof (cases e)
  case ProducerTurn
  assume "fresh_inv s"
  then show ?thesis using ProducerTurn by (simp add: fresh_inv_producer_turn)
next
  case Next
  assume inv: "fresh_inv s"
  then have "length (topics s) \<noteq> 0" by (simp add: fresh_inv_def)
  then show ?thesis using Next inv
    by (simp add: fresh_inv_generator_loop fresh_inv_generator_finally
        split: consumer_task.splits)
next
  case ConsumerTurn
  assume "fresh_inv s"
  then show ?thesis using ConsumerTurn
    by (simp add: fresh_inv_generator_loop fresh_inv_resume split: consumer_task.splits)
next
  case Return
  assume inv: "fresh_inv s"
  have w: "within_horizon (s\<lparr>consumer := Completed\<rparr>) = within_horizon s"
    by (rule within_horizon_cong) simp_all
  have a: "fresh_inv (s\<lparr>consumer := Completed\<rparr>)"
    using inv by (simp add: fresh_inv_def read_ahead_bound_def w producer_live_def)
  have b: "fresh_inv (generator_finally s)"
    using inv by (rule fresh_inv_generator_finally)
  show ?thesis using Return inv a b
    by (simp split: consumer_task.splits)
next
  case Stop
  assume "fresh_inv s"
  then show ?thesis using Stop by (simp add: fresh_inv_call)
next
  case StopTurn
  assume "fresh_inv s"
  then show ?thesis using StopTurn by (simp add: fresh_inv_call_resume)
qed

lemma fresh_inv_run: "fresh_inv s \<Longrightarrow> fresh_inv (run evs s)"
  by (induction evs arbitrary: s) (simp_all add: fresh_inv_step)

lemma messageIterator_fresh_inv:
  assumes "messageIterator args src throws s0 = Inr s" "length (args_topics args) \<noteq> 0"
  shows "fresh_inv s"
  using assms
  by (auto simp: messageIterator_def startProducer_def fresh_inv_def Let_def
      read_ahead_bound_def producer_live_def split: option.splits)

subsection \<open>A producer that nobody wakes\<close>

lemma hung_step: "hung t s \<Longrightarrow> hung t (step e s)"
proof (cases e)
  case ProducerTurn
  assume h: "hung t s"
  then have "producer s = Some (StampWait t) \<or> producer s = Some (StampWoken t)"
    by (auto simp: hung_def stamp_held_def split: option.splits producer_task.splits)
  then show ?thesis using h ProducerTurn
    by (auto simp: hung_def stamp_held_def producer_turn_def stamp_loop_def Let_def
        readSignal_consumer)
next
  case Next
  assume "hung t s"
  then show ?thesis using Next by (simp add: hung_def)
next
  case ConsumerTurn
  assume "hung t s"
  then show ?thesis using ConsumerTurn
    by (auto simp: hung_def stamp_held_def stopProducer_resume_def
        split: option.splits producer_task.splits)
next
  case Return
  assume "hung t s"
  then show ?thesis using Return by (simp add: hung_def)
next
  case Stop
  assume "hung t s"
  then show ?thesis using Stop
    by (auto simp: hung_def stamp_held_def stopProducer_call_def stopProducer_def
        writeSignal_producer split: option.splits producer_task.splits)
next
  case StopTurn
  assume "hung t s"
  then show ?thesis using StopTurn
    by (auto simp: hung_def stamp_held_def stopProducer_call_resume_def
        split: option.splits producer_task.splits)
qed

lemma hung_run: "hung t s \<Longrightarrow> hung t (run evs s)"
  by (induction evs arbitrary: s) (simp_all add: hung_step)

lemma stuck_step:
  "producer s = Some (StampWait t) \<Longrightarrow> consumer s = Stopping \<Longrightarrow> e \<noteq> Stop \<Longrightarrow> step e s = s"
  by (cases e) (simp_all add: producer_turn_def stopProducer_resume_def
      stopProducer_call_resume_def)

lemma stuck_run:
  "producer s = Some (StampWait t) \<Longrightarrow> consumer s = Stopping \<Longrightarrow>
   run (filter (\<lambda>e. e \<noteq> Stop) evs) s = s"
  by (induction evs) (simp_all add: stuck_step)

subsection \<open>Holding the producer's promise\<close>







lemma step_initResult [simp]: "initResult (step e s) = initResult s"
  by (cases e)
     (simp_all add: generator_loop_def generator_finally_def stopProducer_def
       stopProducer_resume_def stopProducer_call_def stopProducer_call_resume_def
       split: consumer_task.splits list.splits option.splits producer_task.splits)

lemma run_initResult [simp]: "initResult (run evs s) = initResult s"
  by (induction evs arbitrary: s) simp_all



subsection \<open>Claims\<close>

text \<open>
  C2. For every topic list and start time, when the wrapped source's iterator delivers its
  results in non-decreasing time order, the results yielded by \<open>messageIterator\<close> are in
  non-decreasing time order under every schedule, and they are the source's results in
  the source's order: the queue never reorders and never skips. (A stamp taken from the
  source once may be yielded several times in a row, see C9; a message never is.)
\<close>

theorem yields_in_source_order:
  assumes "messageIterator args src throws s0 = Inr s"
    and "sorted (map resultTime src)"
  shows "sorted (map resultTime (yielded (run evs s))) \<and> follows (yielded (run evs s)) src"
proof -
  have "follows (yielded (run evs s)) src"
    using messageIterator_inv[OF assms(1)]
  proof
    assume "order_inv src s"
    then show ?thesis by (intro order_inv_follows order_inv_run)
  next
    assume "idle_inv s"
    then have "idle_inv (run evs s)" by (rule idle_inv_run)
    then show ?thesis by (simp add: idle_inv_def)
  qed
  then show ?thesis using assms(2) follows_sorted by blast
qed

theorem yields_in_source_order_witness:
  "messageIterator example_args [msg 1, stamp 100] False example_instance
     = Inr (example_session [msg 1, stamp 100] False) \<and>
   sorted (map resultTime [msg 1, stamp 100]) \<and>
   yielded (run [ProducerTurn, ProducerTurn, Next, ProducerTurn, Next, ProducerTurn, Next]
      (example_session [msg 1, stamp 100] False)) = [msg 1, stamp 100, stamp 100] \<and>
   sorted (map resultTime [msg 1, stamp 100, stamp 100]) \<and>
   follows [msg 1, stamp 100, stamp 100] [msg 1, stamp 100]"
proof -
  have h1: "messageIterator example_args [msg 1, stamp 100] False example_instance
     = Inr (example_session [msg 1, stamp 100] False)"
    by (rule example_session_Inr)
  have h2: "sorted (map resultTime [msg 1, stamp 100])"
    by (simp add: msg_def)
  have h3: "yielded (run [ProducerTurn, ProducerTurn, Next, ProducerTurn, Next, ProducerTurn, Next]
      (example_session [msg 1, stamp 100] False)) = [msg 1, stamp 100, stamp 100]"
    by code_simp
  show ?thesis
    using h1 h2 h3
      yields_in_source_order [OF h1 h2,
        of "[ProducerTurn, ProducerTurn, Next, ProducerTurn, Next, ProducerTurn, Next]"]
    by simp
qed




text \<open>
  C5. Whenever the producer's loop exits, by the end of the source's iterator, by an
  exception of the source, or by abort, the \<open>finally\<close> block has set \<open>readDone\<close> and
  notified \<open>readSignal\<close>: a consumer that was waiting for data has been woken. In every
  state that a session reaches under any schedule, once the producer has settled
  \<open>readDone\<close> holds and the consumer is not waiting on \<open>readSignal\<close>, so it never waits
  forever on a producer that has finished or crashed.
\<close>

theorem producer_exit_signals_consumer:
  assumes "messageIterator args src throws s0 = Inr s"
  shows "(producer u = Some AwaitNext \<and> sourceIterator u = [] \<longrightarrow>
            producer (producer_turn u) = Some (if sourceThrows u then Rejected else Resolved)) \<and>
         (producer u = Some AwaitNext \<and> sourceIterator u \<noteq> [] \<and> aborted u \<longrightarrow>
            producer (producer_turn u) = Some Resolved) \<and>
         (\<not> producer_settled u \<and> producer_settled (producer_turn u) \<longrightarrow>
            readDone (producer_turn u) \<and> consumer (producer_turn u) \<noteq> ReadWait) \<and>
         (producer_settled (run evs s) \<longrightarrow>
            readDone (run evs s) \<and> consumer (run evs s) \<noteq> ReadWait)"
proof (intro conjI impI)
  assume "producer u = Some AwaitNext \<and> sourceIterator u = []"
  then show "producer (producer_turn u) = Some (if sourceThrows u then Rejected else Resolved)"
    by (simp add: producer_turn_def producer_finally_def)
next
  assume "producer u = Some AwaitNext \<and> sourceIterator u \<noteq> [] \<and> aborted u"
  then show "producer (producer_turn u) = Some Resolved"
    by (cases "sourceIterator u") (simp_all add: producer_turn_def loop_body_def producer_finally_def)
next
  assume a: "\<not> producer_settled u \<and> producer_settled (producer_turn u)"
  then obtain outcome v where "producer_turn u = producer_finally outcome v"
    using producer_turn_settles by blast
  then show "readDone (producer_turn u)" "consumer (producer_turn u) \<noteq> ReadWait"
    by (simp_all add: producer_finally_def readSignal_consumer)
next
  have inv: "settle_inv (run evs s)"
    by (intro settle_inv_run messageIterator_settle_inv[OF assms])
  assume "producer_settled (run evs s)"
  with inv show "readDone (run evs s)" "consumer (run evs s) \<noteq> ReadWait"
    by (simp_all add: settle_inv_def)
qed

theorem producer_exit_signals_consumer_witness:
  "producer (run [Next, ProducerTurn] (example_session [msg 1] True)) = Some AwaitNext \<and>
   sourceIterator (run [Next, ProducerTurn] (example_session [msg 1] True)) = [] \<and>
   sourceThrows (run [Next, ProducerTurn] (example_session [msg 1] True)) \<and>
   producer (producer_turn (run [Next, ProducerTurn] (example_session [msg 1] True)))
     = Some Rejected \<and>
   producer_settled (run [Next, ProducerTurn, ProducerTurn] (example_session [msg 1] True)) \<and>
   readDone (run [Next, ProducerTurn, ProducerTurn] (example_session [msg 1] True)) \<and>
   consumer (run [Next, ProducerTurn, ProducerTurn] (example_session [msg 1] True)) = ReadWoken \<and>
   consumer (run [Next, ProducerTurn, ProducerTurn, ConsumerTurn, Next, ConsumerTurn]
      (example_session [msg 1] True)) = Threw"
proof -
  let ?u = "run [Next, ProducerTurn] (example_session [msg 1] True)"
  let ?s = "run [Next, ProducerTurn, ProducerTurn] (example_session [msg 1] True)"
  have u: "producer ?u = Some AwaitNext \<and> sourceIterator ?u = [] \<and> sourceThrows ?u"
    by code_simp
  have h: "producer ?s = Some Rejected" by code_simp
  have c: "consumer ?s = ReadWoken" by code_simp
  have d: "consumer (run [Next, ProducerTurn, ProducerTurn, ConsumerTurn, Next, ConsumerTurn]
      (example_session [msg 1] True)) = Threw" by code_simp
  from h have st: "producer_settled ?s" by (simp add: producer_settled_def)
  note t = producer_exit_signals_consumer [where u = ?u
      and evs = "[Next, ProducerTurn, ProducerTurn]",
      OF example_session_Inr [of "[msg 1]" True]]
  from t u have "producer (producer_turn ?u) = Some Rejected" by simp
  moreover from t st have "readDone ?s" by blast
  ultimately show ?thesis using u c d st by blast
qed

text \<open>
  C1, as amended. In a session over at least one topic, until the consumer has taken its
  first result from the queue and as long as \<open>stopProducer\<close> has not been called
  (\<open>aborted\<close> is unset), at every suspension point of every schedule, direct calls of
  \<open>stopProducer\<close> included, each queued result except the latest lies within
  \<open>readHead + readAheadDuration\<close>. In every state,
  one turn of the producer enqueues at most one result, and when that result lies past the
  horizon the producer is left blocked on \<open>writeSignal\<close>, where it enqueues nothing until
  it is notified. The slack is one result for each time the producer is woken, not one
  result for the queue.
\<close>

theorem read_ahead_bound_until_first_dequeue:
  assumes "messageIterator args src throws s0 = Inr s" "length (args_topics args) \<noteq> 0"
  shows "(yielded (run evs s) = [] \<and> \<not> aborted (run evs s) \<longrightarrow>
            read_ahead_bound (run evs s)) \<and>
         (cache (producer_turn u) = cache u \<or>
          (\<exists>x. cache (producer_turn u) = cache u @ [x] \<and>
               (\<not> within_horizon u x \<longrightarrow> producer_blocked (producer_turn u)))) \<and>
         (producer_blocked u \<longrightarrow> producer_turn u = u)"
proof -
  have "fresh_inv (run evs s)"
    by (intro fresh_inv_run messageIterator_fresh_inv[OF assms])
  then have "yielded (run evs s) = [] \<and> \<not> aborted (run evs s) \<longrightarrow>
      read_ahead_bound (run evs s)"
    by (simp add: fresh_inv_def)
  then show ?thesis
    using producer_turn_appends[of u] producer_blocked_stays[of u] by blast
qed

theorem read_ahead_bound_until_first_dequeue_witness:
  "yielded (run (replicate 13 ProducerTurn) (example_session (map msg [0..<20]) False)) = [] \<and>
   \<not> aborted (run (replicate 13 ProducerTurn) (example_session (map msg [0..<20]) False)) \<and>
   cache (run (replicate 13 ProducerTurn) (example_session (map msg [0..<20]) False))
     = map msg [0..<12] \<and>
   read_ahead_bound (run (replicate 13 ProducerTurn) (example_session (map msg [0..<20]) False)) \<and>
   cache (producer_turn
      (run (replicate 11 ProducerTurn) (example_session (map msg [0..<20]) False)))
     = cache (run (replicate 11 ProducerTurn) (example_session (map msg [0..<20]) False))
       @ [msg 11] \<and>
   \<not> within_horizon (run (replicate 11 ProducerTurn) (example_session (map msg [0..<20]) False))
       (msg 11) \<and>
   producer_blocked (producer_turn
      (run (replicate 11 ProducerTurn) (example_session (map msg [0..<20]) False)))"
proof -
  let ?s = "example_session (map msg [0..<20]) False"
  let ?u = "run (replicate 11 ProducerTurn) ?s"
  have y: "yielded (run (replicate 13 ProducerTurn) ?s) = []" by code_simp
  have n: "\<not> aborted (run (replicate 13 ProducerTurn) ?s)" by code_simp
  have c: "cache (run (replicate 13 ProducerTurn) ?s) = map msg [0..<12]" by code_simp
  have a: "cache (producer_turn ?u) = cache ?u @ [msg 11]" by code_simp
  have w: "\<not> within_horizon ?u (msg 11)" by code_simp
  have t: "length (args_topics example_args) \<noteq> 0" by (simp add: example_args_def)
  note T = read_ahead_bound_until_first_dequeue [where evs = "replicate 13 ProducerTurn"
      and u = ?u, OF example_session_Inr [of "map msg [0..<20]" False] t]
  from T y n have b: "read_ahead_bound (run (replicate 13 ProducerTurn) ?s)" by blast
  from T a w have "producer_blocked (producer_turn ?u)" by auto
  then show ?thesis using y n c a w b by blast
qed

text \<open>
  C1 as stated does not hold at every suspension point: each result
  the consumer takes wakes the producer, which enqueues one more result whatever its time.
  With a read-ahead of 10 and the read head at 2, the queue holds the messages at 3, 50, 60
  and 70.
\<close>

theorem read_ahead_bound_counterexample:
  "readHead slack_example = 2 \<and> readAheadDuration slack_example = 10 \<and>
   cache slack_example = [msg 3, msg 50, msg 60, msg 70] \<and>
   \<not> read_ahead_bound slack_example"
  by code_simp

text \<open>
  C3. Once \<open>aborted\<close> is set the producer should return and \<open>stopProducer\<close> resolve. A
  producer waiting inside the stamp loop does neither: woken by \<open>stopProducer\<close>, it tests
  the stamp against the horizon only, enqueues the stamp once more although \<open>aborted\<close> is
  set, and waits again on \<open>writeSignal\<close>. From then on no schedule without a further
  direct call of \<open>stopProducer\<close> changes the state, and under every schedule, such calls
  included, the producer stays inside the stamp loop: it never settles and the generator
  stays inside \<open>stopProducer\<close>.
\<close>

theorem stopProducer_hangs_in_stamp_loop:
  "aborted abort_example \<and>
   producer abort_example = Some (StampWoken 100) \<and>
   consumer abort_example = Stopping \<and>
   cache (step ProducerTurn abort_example) = cache abort_example @ [stamp 100] \<and>
   (\<forall>evs. producer (run (filter (\<lambda>e. e \<noteq> Stop) evs) (step ProducerTurn abort_example))
            = Some (StampWait 100) \<and>
          consumer (run (filter (\<lambda>e. e \<noteq> Stop) evs) (step ProducerTurn abort_example))
            = Stopping) \<and>
   (\<forall>evs. (producer (run evs (step ProducerTurn abort_example)) = Some (StampWait 100) \<or>
           producer (run evs (step ProducerTurn abort_example)) = Some (StampWoken 100)) \<and>
          consumer (run evs (step ProducerTurn abort_example)) = Stopping)"
proof -
  let ?s = "step ProducerTurn abort_example"
  have a: "aborted abort_example \<and> producer abort_example = Some (StampWoken 100) \<and>
      consumer abort_example = Stopping"
    by code_simp
  have b: "cache ?s = cache abort_example @ [stamp 100]"
    by code_simp
  have c: "producer ?s = Some (StampWait 100)" "consumer ?s = Stopping"
    by code_simp+
  have h: "hung 100 ?s" by code_simp
  have d: "run (filter (\<lambda>e. e \<noteq> Stop) evs) ?s = ?s" for evs
    using c by (rule stuck_run)
  have e: "(producer (run evs ?s) = Some (StampWait 100) \<or>
            producer (run evs ?s) = Some (StampWoken 100)) \<and>
           consumer (run evs ?s) = Stopping" for evs
    using hung_run[OF h, of evs]
    by (auto simp: hung_def stamp_held_def split: option.splits producer_task.splits)
  show ?thesis using a b c d e by simp
qed

text \<open>
  C9. A stamp at or past the horizon \<open>readHead + readAheadDuration\<close> is enqueued, the
  consumer is notified, and the producer waits on \<open>writeSignal\<close> holding the stamp; there
  its turn does nothing until \<open>notifyAll\<close>. Once woken it compares the stamp with the
  horizon of the read head as it is then: still at or past it, the same stamp is enqueued
  again and the producer waits again; below it, the producer goes on to the source's next
  result without enqueueing. The consumer can therefore be given the same stamp several
  times in a row.
\<close>

theorem stamp_past_horizon_cycle:
  "(producer s = Some AwaitNext \<and> sourceIterator s = stamp t # rest \<and> \<not> aborted s \<and>
      compare t (addTime (readHead s) (readAheadDuration s)) \<ge> 0 \<longrightarrow>
        cache (producer_turn s) = cache s @ [stamp t] \<and>
        producer (producer_turn s) = Some (StampWait t) \<and>
        sourceIterator (producer_turn s) = rest \<and>
        (consumer s = ReadWait \<longrightarrow> consumer (producer_turn s) = ReadWoken)) \<and>
   (producer s = Some (StampWait t) \<longrightarrow>
        producer_turn s = s \<and> producer (writeSignal_notifyAll s) = Some (StampWoken t)) \<and>
   (producer s = Some (StampWoken t) \<and>
      compare t (addTime (readHead s) (readAheadDuration s)) \<ge> 0 \<longrightarrow>
        cache (producer_turn s) = cache s @ [stamp t] \<and>
        producer (producer_turn s) = Some (StampWait t) \<and>
        sourceIterator (producer_turn s) = sourceIterator s \<and>
        (consumer s = ReadWait \<longrightarrow> consumer (producer_turn s) = ReadWoken)) \<and>
   (producer s = Some (StampWoken t) \<and>
      compare t (addTime (readHead s) (readAheadDuration s)) < 0 \<longrightarrow>
        producer_turn s = s\<lparr>producer := Some AwaitNext\<rparr>)"
  by (simp add: producer_turn_def loop_body_def stamp_loop_def Let_def readSignal_consumer
      writeSignal_producer)

theorem stamp_past_horizon_cycle_witness:
  "cache (producer_turn (run [ProducerTurn] (example_session [msg 1, stamp 100] False)))
     = [msg 1, stamp 100] \<and>
   producer (producer_turn (run [ProducerTurn] (example_session [msg 1, stamp 100] False)))
     = Some (StampWait 100) \<and>
   cache (producer_turn (run [ProducerTurn, ProducerTurn, Next]
            (example_session [msg 1, stamp 100] False))) = [stamp 100, stamp 100] \<and>
   producer (producer_turn (run [ProducerTurn, ProducerTurn, Next]
            (example_session [msg 1, stamp 100] False))) = Some (StampWait 100) \<and>
   producer (producer_turn (run [ProducerTurn, ProducerTurn, Next, ProducerTurn, Next]
            (example_session [msg 1, stamp 100] False))) = Some AwaitNext \<and>
   producer_turn (run [ProducerTurn, ProducerTurn] (example_session [msg 1, stamp 100] False))
     = run [ProducerTurn, ProducerTurn] (example_session [msg 1, stamp 100] False) \<and>
   yielded (run [ProducerTurn, ProducerTurn, Next, ProducerTurn, Next, ProducerTurn, Next]
            (example_session [msg 1, stamp 100] False)) = [msg 1, stamp 100, stamp 100]"
proof -
  let ?s0 = "example_session [msg 1, stamp 100] False"
  let ?s1 = "run [ProducerTurn] ?s0"
  let ?s2 = "run [ProducerTurn, ProducerTurn] ?s0"
  let ?s3 = "run [ProducerTurn, ProducerTurn, Next] ?s0"
  let ?s5 = "run [ProducerTurn, ProducerTurn, Next, ProducerTurn, Next] ?s0"
  have s1: "producer ?s1 = Some AwaitNext \<and> sourceIterator ?s1 = [stamp 100] \<and>
      \<not> aborted ?s1 \<and> readHead ?s1 = 0 \<and> readAheadDuration ?s1 = 10 \<and> cache ?s1 = [msg 1]"
    by code_simp
  have s2: "producer ?s2 = Some (StampWait 100)"
    by code_simp
  have s3: "producer ?s3 = Some (StampWoken 100) \<and> readHead ?s3 = 1 \<and>
      readAheadDuration ?s3 = 10 \<and> cache ?s3 = [stamp 100]"
    by code_simp
  have s5: "producer ?s5 = Some (StampWoken 100) \<and> readHead ?s5 = 100 \<and>
      readAheadDuration ?s5 = 10"
    by code_simp
  have y: "yielded (run [ProducerTurn, ProducerTurn, Next, ProducerTurn, Next, ProducerTurn, Next]
            ?s0) = [msg 1, stamp 100, stamp 100]"
    by code_simp
  show ?thesis
    using s1 s2 s3 s5 y
      stamp_past_horizon_cycle [of ?s1 100 "[]"]
      stamp_past_horizon_cycle [of ?s2 100 "[]"]
      stamp_past_horizon_cycle [of ?s3 100 "[]"]
      stamp_past_horizon_cycle [of ?s5 100 "[]"]
    by (simp add: compare_def addTime_def del: run.simps)
qed

section \<open>Verification of CachedFilelike\<close>

subsection \<open>Promises\<close>

lemma settle_length [simp]: "length (settle i v ps) = length ps"
  by (simp add: settle_def)

lemma settle_nth:
  "settle i v ps ! j = (if j = i \<and> i < length ps \<and> ps ! i = Pending then v else ps ! j)"
  by (simp add: settle_def)

lemma fold_settle_length [simp]:
  "length (fold (\<lambda>r. settle (req_promise r) v) rs ps) = length ps"
  by (induction rs arbitrary: ps) simp_all

lemma fold_settle_keeps:
  "ps ! i \<noteq> Pending \<Longrightarrow> fold (\<lambda>r. settle (req_promise r) v) rs ps ! i = ps ! i"
proof (induction rs arbitrary: ps)
  case Nil
  then show ?case by simp
next
  case (Cons r rs)
  from Cons.prems have "settle (req_promise r) v ps ! i = ps ! i"
    by (auto simp: settle_nth)
  with Cons show ?case by simp
qed

lemma fold_settle_rejects:
  assumes "r \<in> set rs" "req_promise r < length ps" "ps ! req_promise r = Pending"
    and "v \<noteq> Pending"
  shows "fold (\<lambda>r. settle (req_promise r) v) rs ps ! req_promise r = v"
  using assms
proof (induction rs arbitrary: ps)
  case Nil
  then show ?case by simp
next
  case (Cons a rs)
  show ?case
  proof (cases "req_promise a = req_promise r")
    case True
    then have "settle (req_promise a) v ps ! req_promise r = v"
      using Cons.prems by (simp add: settle_nth)
    then have "fold (\<lambda>r. settle (req_promise r) v) rs (settle (req_promise a) v ps) ! req_promise r
        = v"
      using Cons.prems(4) fold_settle_keeps[of "settle (req_promise a) v ps" "req_promise r" v rs]
      by simp
    then show ?thesis by simp
  next
    case False
    then have "r \<in> set rs" using Cons.prems(1) by auto
    moreover have "settle (req_promise a) v ps ! req_promise r = Pending"
      using False Cons.prems by (simp add: settle_nth)
    ultimately show ?thesis using Cons.IH[of "settle (req_promise a) v ps"] Cons.prems by simp
  qed
qed

lemma only_fulfils_refl [simp]: "only_fulfils ps ps"
  by (simp add: only_fulfils_def list_all2_conv_all_nth)

lemma only_fulfils_trans:
  "only_fulfils ps qs \<Longrightarrow> only_fulfils qs rs \<Longrightarrow> only_fulfils ps rs"
  unfolding only_fulfils_def list_all2_conv_all_nth
  by (auto split: promise.splits) metis+

lemma only_fulfils_settle [simp]: "only_fulfils ps (settle i (Fulfilled b) ps)"
  by (simp add: only_fulfils_def list_all2_conv_all_nth settle_nth)

lemma resolve_requests_fields:
  "resolve_requests d rs s = (keep, s') \<Longrightarrow>
     closedFlag s' = closedFlag s \<and> keepReconnectingCallback s' = keepReconnectingCallback s \<and>
     lastErrorTime s' = lastErrorTime s \<and> reconnecting s' = reconnecting s \<and>
     fetched s' = fetched s \<and> destroyed s' = destroyed s \<and>
     currentConnection s' = currentConnection s \<and> fileSize s' = fileSize s \<and>
     cacheSizeInBytes s' = cacheSizeInBytes s \<and> only_fulfils (promises s) (promises s')"
proof (induction rs arbitrary: s keep)
  case Nil
  then show ?case by simp
next
  case (Cons r rs)
  show ?case
  proof (cases "hasData d (virtualBuffer s) (range_start (req_range r)) (range_end (req_range r))")
    case False
    then obtain k where "resolve_requests d rs s = (k, s')"
      using Cons.prems by (auto split: prod.splits)
    then show ?thesis by (rule Cons.IH)
  next
    case True
    obtain buffer vb where
      sl: "slice d (virtualBuffer s) (range_start (req_range r)) (range_end (req_range r))
            = (buffer, vb)"
      by (cases "slice d (virtualBuffer s) (range_start (req_range r)) (range_end (req_range r))")
    let ?s1 = "s\<lparr>lastResolvedCallbackEnd := Some (range_end (req_range r)),
                  virtualBuffer := vb,
                  promises := settle (req_promise r) (Fulfilled buffer) (promises s)\<rparr>"
    have "resolve_requests d rs ?s1 = (keep, s')"
      using Cons.prems True sl by simp
    from Cons.IH[OF this] show ?thesis
      using only_fulfils_trans[OF only_fulfils_settle[of "promises s" "req_promise r" buffer]]
      by simp
  qed
qed

lemma setConnection_fields:
  "closedFlag (setConnection rng s) = closedFlag s"
  "keepReconnectingCallback (setConnection rng s) = keepReconnectingCallback s"
  "lastErrorTime (setConnection rng s) = lastErrorTime s"
  "reconnecting (setConnection rng s) = reconnecting s"
  "promises (setConnection rng s) = promises s"
  "fileSize (setConnection rng s) = fileSize s"
  "cacheSizeInBytes (setConnection rng s) = cacheSizeInBytes s"
  "reconnected s (setConnection rng s)"
  by (simp_all add: setConnection_def reconnected_def Let_def split: option.splits)

lemma updateState_closed: "closedFlag s \<Longrightarrow> updateState d s = Inr s"
  by (simp add: updateState_def)

lemma updateState_Inr:
  assumes "fileSize s \<noteq> None"
  shows "\<exists>s'. updateState d s = Inr s'"
proof (cases "closedFlag s")
  case True
  then show ?thesis by (simp add: updateState_def)
next
  case False
  obtain keep s1 where r: "resolve_requests d (readRequests s) s = (keep, s1)"
    by (cases "resolve_requests d (readRequests s) s")
  from resolve_requests_fields[OF r] assms obtain fsize where "fileSize s1 = Some fsize"
    by auto
  then show ?thesis using False r
    by (simp add: updateState_def Let_def split: option.splits)
qed

lemma updateState_fields:
  assumes "updateState d s = Inr s'"
  shows "closedFlag s' = closedFlag s \<and> keepReconnectingCallback s' = keepReconnectingCallback s \<and>
     lastErrorTime s' = lastErrorTime s \<and> reconnecting s' = reconnecting s \<and>
     fileSize s' = fileSize s \<and> cacheSizeInBytes s' = cacheSizeInBytes s \<and>
     only_fulfils (promises s) (promises s') \<and>
     (same_connection s s' \<or> reconnected s s')"
proof (cases "closedFlag s")
  case True
  then have "s' = s" using assms by (simp add: updateState_def)
  then show ?thesis by (simp add: same_connection_def)
next
  case False
  obtain keep s1 where r: "resolve_requests d (readRequests s) s = (keep, s1)"
    by (cases "resolve_requests d (readRequests s) s")
  note f = resolve_requests_fields[OF r]
  let ?s2 = "s1\<lparr>readRequests := keep\<rparr>"
  have s2: "closedFlag ?s2 = closedFlag s" "keepReconnectingCallback ?s2 = keepReconnectingCallback s"
    "lastErrorTime ?s2 = lastErrorTime s" "reconnecting ?s2 = reconnecting s"
    "fileSize ?s2 = fileSize s" "cacheSizeInBytes ?s2 = cacheSizeInBytes s"
    "only_fulfils (promises s) (promises ?s2)" "same_connection s ?s2"
    using f by (simp_all add: same_connection_def)
  from assms False r have "s' = ?s2 \<or> (\<exists>rng. s' = setConnection rng ?s2)"
    by (auto simp: updateState_def Let_def split: option.splits)
  then show ?thesis
  proof
    assume "s' = ?s2"
    then show ?thesis using s2 by simp
  next
    assume "\<exists>rng. s' = setConnection rng ?s2"
    then obtain rng where s': "s' = setConnection rng ?s2" ..
    have "reconnected ?s2 s'" unfolding s' by (rule setConnection_fields)
    then have "reconnected s s'"
      using s2(8) by (simp add: reconnected_def same_connection_def split: option.splits)
    then show ?thesis using s2 unfolding s' by (simp add: setConnection_fields)
  qed
qed


lemma open_file_fields:
  assumes "open_file d opened s = Inr s1"
  shows "closedFlag s1 = closedFlag s" "keepReconnectingCallback s1 = keepReconnectingCallback s"
    "readRequests s1 = readRequests s" "promises s1 = promises s" "fetched s1 = fetched s"
    "currentConnection s1 = currentConnection s" "destroyed s1 = destroyed s"
    "cacheSizeInBytes s1 = cacheSizeInBytes s" "lastErrorTime s1 = lastErrorTime s"
    "reconnecting s1 = reconnecting s"
  using assms by (auto simp: open_file_def split: option.splits sum.splits)

lemma read_fields:
  assumes "read d opened now offset len s = Inr (p, s')"
  shows "closedFlag s' = closedFlag s \<and> keepReconnectingCallback s' = keepReconnectingCallback s"
proof (cases "len = 0 \<or> offset < 0 \<or> len < 0 \<or>
    (case cacheSizeInBytes s of None \<Rightarrow> False | Some c \<Rightarrow> len > c)")
  case True
  then show ?thesis using assms by (auto simp: read_def split: if_splits)
next
  case False
  show ?thesis
  proof (cases "open_file d opened s")
    case (Inl e)
    then show ?thesis using assms False by (simp add: read_def)
  next
    case (Inr s1)
    note o = open_file_fields[OF Inr]
    show ?thesis
    proof (cases "fileSize s1")
      case None
      then show ?thesis using assms False Inr o by (auto simp: read_def)
    next
      case (Some fsize)
      show ?thesis
      proof (cases "offset + len > fsize")
        case True
        then show ?thesis using assms False Inr Some o by (auto simp: read_def)
      next
        case past: False
        let ?s2 = "s1\<lparr>promises := promises s1 @ [Pending],
                       readRequests := readRequests s1 @
                         [\<lparr>req_range = \<lparr>range_start = offset, range_end = offset + len\<rparr>,
                           req_promise = length (promises s1), requestTime = now\<rparr>]\<rparr>"
        have "fileSize ?s2 \<noteq> None" using Some by simp
        then obtain s3 where u: "updateState d ?s2 = Inr s3"
          using updateState_Inr by blast
        then have "s' = s3"
          using assms False Inr Some past by (simp add: read_def Let_def)
        then show ?thesis using updateState_fields[OF u] o by simp
      qed
    qed
  qed
qed

lemma retry_fields:
  assumes "retry d c now s = Inr s'" and cur: "currentConnection s = Some c"
  shows "closedFlag s' = closedFlag s \<and> keepReconnectingCallback s' = keepReconnectingCallback s \<and>
     lastErrorTime s' = Some now \<and> reconnecting s' = reconnecting s \<and>
     only_fulfils (promises s) (promises s') \<and> stream c \<in> set (destroyed s') \<and>
     (currentConnection s' = None \<and> fetched s' = fetched s \<or> reconnected s s')"
proof -
  let ?s1 = "s\<lparr>lastErrorTime := Some now, destroyed := destroyed s @ [stream c],
                currentConnection := None\<rparr>"
  from assms have u: "updateState d ?s1 = Inr s'" by (simp add: retry_def)
  note f = updateState_fields[OF u]
  from f have "same_connection ?s1 s' \<or> reconnected ?s1 s'" by simp
  then have "stream c \<in> set (destroyed s') \<and>
     (currentConnection s' = None \<and> fetched s' = fetched s \<or> reconnected s s')"
  proof
    assume "same_connection ?s1 s'"
    then show ?thesis by (simp add: same_connection_def)
  next
    assume r: "reconnected ?s1 s'"
    then obtain c' where c': "currentConnection s' = Some c'"
      by (auto simp: reconnected_def split: option.splits)
    with r have "destroyed s' = destroyed s @ [stream c]"
      by (simp add: reconnected_def)
    moreover have "reconnected s s'"
      using r c' cur by (simp add: reconnected_def)
    ultimately show ?thesis by simp
  qed
  then show ?thesis using f by simp
qed

lemma stream_error_fields:
  assumes "stream_error d st err now s = Inr s'"
  shows "(closedFlag s \<longrightarrow> closedFlag s') \<and>
     keepReconnectingCallback s' = keepReconnectingCallback s \<and>
     (keepReconnectingCallback s \<longrightarrow> closedFlag s' = closedFlag s)"
proof (cases "currentConnection s")
  case None
  then show ?thesis using assms by (simp add: stream_error_def)
next
  case (Some c)
  show ?thesis
  proof (cases "st = stream c")
    case False
    then show ?thesis using assms Some by (simp add: stream_error_def)
  next
    case True
    show ?thesis
    proof (cases "keepReconnectingCallback s")
      case cb: True
      let ?s1 = "if lastErrorTime s = None
                  then s\<lparr>reconnecting := reconnecting s @ [True]\<rparr> else s"
      from assms Some True cb have "retry d c now ?s1 = Inr s'"
        by (simp add: stream_error_def)
      from retry_fields[OF this] Some show ?thesis by (simp split: if_splits)
    next
      case cb: False
      show ?thesis
      proof (cases "\<exists>t. lastErrorTime s = Some t \<and> now - t < 100")
        case True
        then show ?thesis using assms Some \<open>st = stream c\<close> cb
          by (auto simp: stream_error_def)
      next
        case False
        then have "retry d c now s = Inr s'"
          using assms Some \<open>st = stream c\<close> cb
          by (auto simp: stream_error_def split: option.splits if_splits)
        from retry_fields[OF this Some] show ?thesis by simp
      qed
    qed
  qed
qed

lemma stream_data_fields:
  assumes "stream_data d st chunk s = Inr s'"
  shows "closedFlag s' = closedFlag s \<and> keepReconnectingCallback s' = keepReconnectingCallback s"
proof (cases "currentConnection s")
  case None
  then show ?thesis using assms by (simp add: stream_data_def)
next
  case (Some c)
  show ?thesis
  proof (cases "st = stream c")
    case False
    then show ?thesis using assms Some by (simp add: stream_data_def)
  next
    case True
    from assms Some True obtain s3 where u: "updateState d s3 = Inr s'"
      and s3: "closedFlag s3 = closedFlag s" "keepReconnectingCallback s3 = keepReconnectingCallback s"
      by (auto simp: stream_data_def Let_def split: option.splits if_splits)
    from updateState_fields[OF u] s3 show ?thesis by simp
  qed
qed

lemma reader_step_fields:
  "(closedFlag s \<longrightarrow> closedFlag (reader_step d e s)) \<and>
   keepReconnectingCallback (reader_step d e s) = keepReconnectingCallback s \<and>
   (keepReconnectingCallback s \<longrightarrow> closedFlag (reader_step d e s) = closedFlag s)"
proof (cases e)
  case (Read opened now offset len)
  then show ?thesis using read_fields[of d opened now offset len s]
    by (auto split: sum.splits prod.splits)
next
  case (StreamError st err now)
  then show ?thesis using stream_error_fields[of d st err now s]
    by (auto split: sum.splits)
next
  case (StreamData st chunk)
  then show ?thesis using stream_data_fields[of d st chunk s]
    by (auto split: sum.splits)
qed

lemma closed_run: "closedFlag s \<Longrightarrow> closedFlag (reader_run d evs s)"
  by (induction evs arbitrary: s) (simp_all add: reader_step_fields)

lemma callback_run:
  "keepReconnectingCallback s \<Longrightarrow> \<not> closedFlag s \<Longrightarrow> \<not> closedFlag (reader_run d evs s)"
  by (induction evs arbitrary: s) (simp_all add: reader_step_fields)


lemma updateState_reconnects:
  assumes "\<not> closedFlag s" "fileSize s \<noteq> None" "currentConnection s = None"
    and "readRequests s = r # rs"
    and "\<not> hasData d (virtualBuffer s) (range_start (req_range r)) (range_end (req_range r))"
    and policy: "\<forall>a. arg_currentRemainingRange a = None \<and> arg_readRequestRange a \<noteq> None
           \<longrightarrow> getNewConnection d a \<noteq> None"
    and u: "updateState d s = Inr s'"
  shows "currentConnection s' \<noteq> None"
proof -
  obtain keep s1 where k: "resolve_requests d rs s = (keep, s1)"
    by (cases "resolve_requests d rs s")
  then have r: "resolve_requests d (readRequests s) s = (r # keep, s1)"
    using assms(4,5) by simp
  note f = resolve_requests_fields[OF k]
  from f assms(2) obtain fsize where fs: "fileSize s1 = Some fsize" by auto
  let ?s2 = "s1\<lparr>readRequests := r # keep\<rparr>"
  let ?a = "\<lparr>arg_currentRemainingRange = map_option remainingRange (currentConnection ?s2),
             arg_readRequestRange =
               (case readRequests ?s2 of [] \<Rightarrow> None | r # rs \<Rightarrow> Some (req_range r)),
             arg_downloadedRanges = getRangesWithData d (virtualBuffer ?s2),
             arg_lastResolvedCallbackEnd = lastResolvedCallbackEnd ?s2,
             arg_maxRequestSize = cacheSizeInBytes ?s2,
             arg_fileSize = fsize,
             arg_continueDownloadingThreshold =
               CLOSE_ENOUGH_BYTES_TO_NOT_START_NEW_CONNECTION\<rparr>"
  have "arg_currentRemainingRange ?a = None \<and> arg_readRequestRange ?a \<noteq> None"
    using f assms(3) by simp
  with policy have "getNewConnection d ?a \<noteq> None" by blast
  then obtain rng where g: "getNewConnection d ?a = Some rng" by auto
  have "updateState d s = Inr (setConnection rng ?s2)"
    using assms(1) r fs g by (simp add: updateState_def Let_def)
  with u have "s' = setConnection rng ?s2" by simp
  then show ?thesis by (simp add: setConnection_def Let_def)
qed

lemma stream_error_fatal:
  assumes "currentConnection s = Some c" "stream c = st" "\<not> keepReconnectingCallback s"
    and "lastErrorTime s = Some t" "now - t < 100"
  shows "\<exists>s'. stream_error d st err now s = Inr s' \<and> closedFlag s' \<and>
      (\<forall>r\<in>set (readRequests s).
         req_promise r < length (promises s) \<and> promises s ! req_promise r = Pending \<longrightarrow>
         promises s' ! req_promise r = RejectedWith err) \<and>
      (\<forall>evs. closedFlag (reader_run d evs s'))"
proof -
  let ?s' = "s\<lparr>closedFlag := True,
               promises := fold (\<lambda>request. settle (req_promise request) (RejectedWith err))
                             (readRequests s) (promises s)\<rparr>"
  have e: "stream_error d st err now s = Inr ?s'"
    using assms by (simp add: stream_error_def)
  have "\<forall>r\<in>set (readRequests s).
         req_promise r < length (promises s) \<and> promises s ! req_promise r = Pending \<longrightarrow>
         promises ?s' ! req_promise r = RejectedWith err"
    by (auto intro: fold_settle_rejects)
  moreover have "\<forall>evs. closedFlag (reader_run d evs ?s')"
    by (simp add: closed_run)
  ultimately show ?thesis using e by simp
qed

lemma stream_error_retried:
  assumes cur: "currentConnection s = Some c" "stream c = st"
    and cfg: "\<not> keepReconnectingCallback s"
    and iso: "lastErrorTime s = None \<or> (\<exists>t. lastErrorTime s = Some t \<and> 100 \<le> now - t)"
    and ok: "\<not> closedFlag s" "fileSize s \<noteq> None"
  shows "\<exists>s'. stream_error d st err now s = Inr s' \<and> \<not> closedFlag s' \<and>
      lastErrorTime s' = Some now \<and> st \<in> set (destroyed s') \<and>
      only_fulfils (promises s) (promises s') \<and>
      (currentConnection s' = None \<and> fetched s' = fetched s \<or> reconnected s s') \<and>
      ((\<exists>r rs. readRequests s = r # rs \<and>
          \<not> hasData d (virtualBuffer s) (range_start (req_range r)) (range_end (req_range r))) \<and>
       (\<forall>a. arg_currentRemainingRange a = None \<and> arg_readRequestRange a \<noteq> None
           \<longrightarrow> getNewConnection d a \<noteq> None) \<longrightarrow> reconnected s s')"
proof -
  let ?s1 = "s\<lparr>lastErrorTime := Some now, destroyed := destroyed s @ [stream c],
                currentConnection := None\<rparr>"
  have e: "stream_error d st err now s = retry d c now s"
    using cur cfg iso by (auto simp: stream_error_def)
  have "fileSize ?s1 \<noteq> None" using ok by simp
  then obtain s' where u: "updateState d ?s1 = Inr s'"
    using updateState_Inr by blast
  then have r: "retry d c now s = Inr s'" by (simp add: retry_def)
  note f = retry_fields[OF r cur(1)]
  have "reconnected s s'"
    if w: "\<exists>r rs. readRequests s = r # rs \<and>
          \<not> hasData d (virtualBuffer s) (range_start (req_range r)) (range_end (req_range r))"
      and p: "\<forall>a. arg_currentRemainingRange a = None \<and> arg_readRequestRange a \<noteq> None
           \<longrightarrow> getNewConnection d a \<noteq> None"
  proof -
    from w obtain r rs where w': "readRequests ?s1 = r # rs"
      "\<not> hasData d (virtualBuffer ?s1) (range_start (req_range r)) (range_end (req_range r))"
      by auto
    have "currentConnection s' \<noteq> None"
      by (rule updateState_reconnects[OF _ _ _ w' p u]) (simp_all add: ok)
    with f show ?thesis by auto
  qed
  then show ?thesis using e r f ok cur by auto
qed

lemma stream_error_callback:
  assumes cur: "currentConnection s = Some c" "stream c = st"
    and cfg: "keepReconnectingCallback s"
    and ok: "\<not> closedFlag s" "fileSize s \<noteq> None"
  shows "\<exists>s'. stream_error d st err now s = Inr s' \<and> \<not> closedFlag s' \<and>
      lastErrorTime s' = Some now \<and> st \<in> set (destroyed s') \<and>
      reconnecting s' = reconnecting s @ (if lastErrorTime s = None then [True] else []) \<and>
      only_fulfils (promises s) (promises s') \<and>
      (\<forall>evs. \<not> closedFlag (reader_run d evs s'))"
proof -
  let ?s0 = "if lastErrorTime s = None
             then s\<lparr>reconnecting := reconnecting s @ [True]\<rparr> else s"
  let ?s1 = "?s0\<lparr>lastErrorTime := Some now, destroyed := destroyed ?s0 @ [stream c],
                 currentConnection := None\<rparr>"
  have e: "stream_error d st err now s = retry d c now ?s0"
    using cur cfg by (simp add: stream_error_def)
  have "fileSize ?s1 \<noteq> None" using ok by simp
  then obtain s' where u: "updateState d ?s1 = Inr s'"
    using updateState_Inr by blast
  then have r: "retry d c now ?s0 = Inr s'" by (simp add: retry_def)
  have c0: "currentConnection ?s0 = Some c" using cur by simp
  note f = retry_fields[OF r c0]
  from f cfg ok have "keepReconnectingCallback s'" "\<not> closedFlag s'" by (simp_all split: if_splits)
  then have "\<forall>evs. \<not> closedFlag (reader_run d evs s')"
    by (simp add: callback_run)
  then show ?thesis using e r f ok cur by (auto split: if_splits)
qed

lemma stream_data_recovers:
  assumes cur: "currentConnection s = Some c" "stream c = st"
    and err: "lastErrorTime s = Some t"
    and ok: "fileSize s \<noteq> None"
  shows "\<exists>s'. stream_data d st chunk s = Inr s' \<and> lastErrorTime s' = None \<and>
      reconnecting s' = reconnecting s @ (if keepReconnectingCallback s then [False] else [])"
proof -
  from cur err obtain s3 where d: "stream_data d st chunk s = updateState d s3"
    and s3: "lastErrorTime s3 = None" "fileSize s3 = fileSize s"
      "reconnecting s3 = reconnecting s @ (if keepReconnectingCallback s then [False] else [])"
    by (auto simp: stream_data_def Let_def)
  from s3(2) ok obtain s' where u: "updateState d s3 = Inr s'"
    using updateState_Inr[of s3 d] by auto
  from updateState_fields[OF u] s3 d u show ?thesis by simp
qed

lemma stream_error_stale:
  assumes "currentConnection s = None \<or> (\<exists>c. currentConnection s = Some c \<and> stream c \<noteq> st')"
  shows "stream_error d st' err now s = Inr s"
  using assms by (auto simp: stream_error_def)

lemma example_reader_opened: "fileSize (example_reader callback) = Some 1000"
  by (cases callback) (simp_all, code_simp+)

subsection \<open>Claims\<close>

text \<open>
  C6, as amended. For an error of the current connection's stream. Without
  \<open>keepReconnectingCallback\<close>: when an earlier error is on record (no data has arrived
  since it) and lies less than 100ms back, the error is fatal: the promise of every queued
  request that is still pending is rejected with this error, and the reader is closed for
  good, under every further history. When no error is on record, or the recorded one lies
  100ms or more back, the error is retried: the stream is destroyed, nothing is rejected,
  and the state update reconnects on a freshly fetched stream, which it does whenever a
  request is waiting and \<open>getNewConnection\<close> asks for a connection when none is open and a
  request waits. With the callback: the reader never closes; the callback is given
  \<open>true\<close> at an error with none on record and nothing at further ones; data arriving
  after an error clears the record and gives the callback \<open>false\<close>. Errors of other
  streams are ignored.
\<close>

theorem stream_error_policy:
  assumes "currentConnection s = Some c" "stream c = st"
  shows
   "(\<not> keepReconnectingCallback s \<and> lastErrorTime s = Some t \<and> now - t < 100 \<longrightarrow>
       (\<exists>s'. stream_error d st err now s = Inr s' \<and> closedFlag s' \<and>
          (\<forall>r\<in>set (readRequests s).
             req_promise r < length (promises s) \<and> promises s ! req_promise r = Pending \<longrightarrow>
             promises s' ! req_promise r = RejectedWith err) \<and>
          (\<forall>evs. closedFlag (reader_run d evs s')))) \<and>
    (\<not> keepReconnectingCallback s \<and>
     (lastErrorTime s = None \<or> (\<exists>t. lastErrorTime s = Some t \<and> 100 \<le> now - t)) \<and>
     \<not> closedFlag s \<and> fileSize s \<noteq> None \<longrightarrow>
       (\<exists>s'. stream_error d st err now s = Inr s' \<and> \<not> closedFlag s' \<and>
          lastErrorTime s' = Some now \<and> st \<in> set (destroyed s') \<and>
          only_fulfils (promises s) (promises s') \<and>
          (currentConnection s' = None \<and> fetched s' = fetched s \<or> reconnected s s') \<and>
          ((\<exists>r rs. readRequests s = r # rs \<and>
              \<not> hasData d (virtualBuffer s)
                   (range_start (req_range r)) (range_end (req_range r))) \<and>
           (\<forall>a. arg_currentRemainingRange a = None \<and> arg_readRequestRange a \<noteq> None
               \<longrightarrow> getNewConnection d a \<noteq> None) \<longrightarrow> reconnected s s'))) \<and>
    (keepReconnectingCallback s \<and> \<not> closedFlag s \<and> fileSize s \<noteq> None \<longrightarrow>
       (\<exists>s'. stream_error d st err now s = Inr s' \<and> \<not> closedFlag s' \<and>
          lastErrorTime s' = Some now \<and> st \<in> set (destroyed s') \<and>
          reconnecting s' = reconnecting s @ (if lastErrorTime s = None then [True] else []) \<and>
          only_fulfils (promises s) (promises s') \<and>
          (\<forall>evs. \<not> closedFlag (reader_run d evs s')))) \<and>
    (lastErrorTime s = Some t \<and> fileSize s \<noteq> None \<longrightarrow>
       (\<exists>s'. stream_data d st chunk s = Inr s' \<and> lastErrorTime s' = None \<and>
          reconnecting s' =
            reconnecting s @ (if keepReconnectingCallback s then [False] else []))) \<and>
    (st' \<noteq> st \<longrightarrow> stream_error d st' err now s = Inr s)"
proof (intro conjI impI)
  assume "\<not> keepReconnectingCallback s \<and> lastErrorTime s = Some t \<and> now - t < 100"
  then show "\<exists>s'. stream_error d st err now s = Inr s' \<and> closedFlag s' \<and>
          (\<forall>r\<in>set (readRequests s).
             req_promise r < length (promises s) \<and> promises s ! req_promise r = Pending \<longrightarrow>
             promises s' ! req_promise r = RejectedWith err) \<and>
          (\<forall>evs. closedFlag (reader_run d evs s'))"
    using stream_error_fatal[OF assms, of t now d err] by blast
next
  assume "\<not> keepReconnectingCallback s \<and>
     (lastErrorTime s = None \<or> (\<exists>t. lastErrorTime s = Some t \<and> 100 \<le> now - t)) \<and>
     \<not> closedFlag s \<and> fileSize s \<noteq> None"
  then show "\<exists>s'. stream_error d st err now s = Inr s' \<and> \<not> closedFlag s' \<and>
          lastErrorTime s' = Some now \<and> st \<in> set (destroyed s') \<and>
          only_fulfils (promises s) (promises s') \<and>
          (currentConnection s' = None \<and> fetched s' = fetched s \<or> reconnected s s') \<and>
          ((\<exists>r rs. readRequests s = r # rs \<and>
              \<not> hasData d (virtualBuffer s)
                   (range_start (req_range r)) (range_end (req_range r))) \<and>
           (\<forall>a. arg_currentRemainingRange a = None \<and> arg_readRequestRange a \<noteq> None
               \<longrightarrow> getNewConnection d a \<noteq> None) \<longrightarrow> reconnected s s')"
    using stream_error_retried[OF assms, of now d err] by blast
next
  assume "keepReconnectingCallback s \<and> \<not> closedFlag s \<and> fileSize s \<noteq> None"
  then show "\<exists>s'. stream_error d st err now s = Inr s' \<and> \<not> closedFlag s' \<and>
          lastErrorTime s' = Some now \<and> st \<in> set (destroyed s') \<and>
          reconnecting s' = reconnecting s @ (if lastErrorTime s = None then [True] else []) \<and>
          only_fulfils (promises s) (promises s') \<and>
          (\<forall>evs. \<not> closedFlag (reader_run d evs s'))"
    using stream_error_callback[OF assms, of d err now] by blast
next
  assume "lastErrorTime s = Some t \<and> fileSize s \<noteq> None"
  then show "\<exists>s'. stream_data d st chunk s = Inr s' \<and> lastErrorTime s' = None \<and>
          reconnecting s' =
            reconnecting s @ (if keepReconnectingCallback s then [False] else [])"
    using stream_data_recovers[OF assms, of t d chunk] by blast
next
  assume "st' \<noteq> st"
  then show "stream_error d st' err now s = Inr s"
    using assms by (intro stream_error_stale) auto
qed

theorem stream_error_policy_witness:
  "closedFlag (reader_run example_collaborators
      [StreamError 0 (External ''reset'') 1000, StreamError 1 (External ''reset'') 1050]
      (example_reader False)) \<and>
   promises (reader_run example_collaborators
      [StreamError 0 (External ''reset'') 1000, StreamError 1 (External ''reset'') 1050]
      (example_reader False)) = [RejectedWith (External ''reset'')] \<and>
   \<not> closedFlag (reader_run example_collaborators
      [StreamError 0 (External ''reset'') 1000] (example_reader False)) \<and>
   reconnected (example_reader False) (reader_run example_collaborators
      [StreamError 0 (External ''reset'') 1000] (example_reader False)) \<and>
   reconnecting (reader_run example_collaborators
      [StreamError 0 (External ''reset'') 1000] (example_reader True)) = [True] \<and>
   reconnecting (reader_run example_collaborators
      [StreamError 0 (External ''reset'') 1000, StreamError 1 (External ''reset'') 1050,
       StreamData 2 (replicate 10 0)] (example_reader True)) = [True, False] \<and>
   \<not> closedFlag (reader_run example_collaborators
      [StreamError 0 (External ''reset'') 1000, StreamError 1 (External ''reset'') 1050,
       StreamData 2 (replicate 10 0)] (example_reader True)) \<and>
   reader_run example_collaborators [StreamError 7 (External ''reset'') 1000]
      (example_reader False) = example_reader False"
proof -
  let ?e = "External ''reset''"
  let ?d = example_collaborators
  let ?s0 = "example_reader False"
  let ?s1 = "reader_run ?d [StreamError 0 ?e 1000] ?s0"
  let ?t0 = "example_reader True"
  let ?t2 = "reader_run ?d [StreamError 0 ?e 1000, StreamError 1 ?e 1050] ?t0"
  let ?c0 = "\<lparr>stream = 0, remainingRange = \<lparr>range_start = 0, range_end = 100\<rparr>,
             conn_range = \<lparr>range_start = 0, range_end = 100\<rparr>, bytesRead = 0\<rparr>"
  let ?c1 = "\<lparr>stream = 1, remainingRange = \<lparr>range_start = 0, range_end = 100\<rparr>,
             conn_range = \<lparr>range_start = 0, range_end = 100\<rparr>, bytesRead = 0\<rparr>"
  let ?c2 = "\<lparr>stream = 2, remainingRange = \<lparr>range_start = 0, range_end = 100\<rparr>,
             conn_range = \<lparr>range_start = 0, range_end = 100\<rparr>, bytesRead = 0\<rparr>"
  have c0: "currentConnection ?s0 = Some ?c0" by code_simp
  have h0: "\<not> keepReconnectingCallback ?s0 \<and> lastErrorTime ?s0 = None \<and> \<not> closedFlag ?s0 \<and>
      fileSize ?s0 \<noteq> None"
    by code_simp
  have c1: "currentConnection ?s1 = Some ?c1" by code_simp
  have h1: "\<not> keepReconnectingCallback ?s1 \<and> lastErrorTime ?s1 = Some 1000 \<and>
      readRequests ?s1 = [\<lparr>req_range = \<lparr>range_start = 0, range_end = 100\<rparr>, req_promise = 0,
          requestTime = 0\<rparr>] \<and> promises ?s1 = [Pending]"
    by code_simp
  have d0: "currentConnection ?t0 = Some ?c0" by code_simp
  have k0: "keepReconnectingCallback ?t0 \<and> lastErrorTime ?t0 = None \<and> \<not> closedFlag ?t0 \<and>
      fileSize ?t0 \<noteq> None \<and> reconnecting ?t0 = []"
    by code_simp
  have d2: "currentConnection ?t2 = Some ?c2" by code_simp
  have k2: "keepReconnectingCallback ?t2 \<and> lastErrorTime ?t2 = Some 1050 \<and>
      fileSize ?t2 \<noteq> None \<and> reconnecting ?t2 = [True]"
    by code_simp
  have p0: "stream ?c0 = 0" by simp
  have p1: "stream ?c1 = 1" by simp
  have p2: "stream ?c2 = 2" by simp
  note isolated = stream_error_policy [where t = 0 and now = 1000 and d = ?d and err = ?e
      and chunk = "[]" and st' = 0, OF c0 p0, THEN conjunct2, THEN conjunct1]
  note stale = stream_error_policy [where t = 0 and now = 1000 and d = ?d and err = ?e
      and chunk = "[]" and st' = 7, OF c0 p0, THEN conjunct2, THEN conjunct2, THEN conjunct2,
      THEN conjunct2]
  note fatal = stream_error_policy [where t = 1000 and now = 1050 and d = ?d and err = ?e
      and chunk = "[]" and st' = 1, OF c1 p1, THEN conjunct1]
  note callback = stream_error_policy [where t = 0 and now = 1000 and d = ?d and err = ?e
      and chunk = "[]" and st' = 0, OF d0 p0, THEN conjunct2, THEN conjunct2, THEN conjunct1]
  note recovered = stream_error_policy [where t = 1050 and now = 0 and d = ?d and err = ?e
      and chunk = "replicate 10 0" and st' = 2, OF d2 p2, THEN conjunct2, THEN conjunct2,
      THEN conjunct2, THEN conjunct1]
  from isolated h0
  obtain s' where s': "stream_error ?d 0 ?e 1000 ?s0 = Inr s'" "\<not> closedFlag s'"
    "currentConnection s' = None \<and> fetched s' = fetched ?s0 \<or> reconnected ?s0 s'"
    by auto
  from fatal h1
  obtain s'' where s'': "stream_error ?d 1 ?e 1050 ?s1 = Inr s''" "closedFlag s''"
    "promises s'' ! 0 = RejectedWith ?e"
    by auto
  from callback k0
  obtain t' where t': "stream_error ?d 0 ?e 1000 ?t0 = Inr t'" "reconnecting t' = [True]"
    by auto
  from recovered k2
  obtain t'' where t'': "stream_data ?d 2 (replicate 10 0) ?t2 = Inr t''"
    "reconnecting t'' = [True, False]"
    by auto
  have a: "closedFlag (reader_run ?d [StreamError 0 ?e 1000, StreamError 1 ?e 1050] ?s0)"
    using s''(1,2) by simp
  have b: "\<not> closedFlag ?s1" using s'(1,2) by simp
  have c: "reconnecting (reader_run ?d [StreamError 0 ?e 1000] ?t0) = [True]"
    using t' by simp
  have e: "reconnecting (reader_run ?d
      [StreamError 0 ?e 1000, StreamError 1 ?e 1050, StreamData 2 (replicate 10 0)] ?t0)
      = [True, False]"
    using t'' by simp
  have f: "reader_run ?d [StreamError 7 ?e 1000] ?s0 = ?s0"
    using stale by simp
  have rest: "promises (reader_run ?d [StreamError 0 ?e 1000, StreamError 1 ?e 1050] ?s0)
       = [RejectedWith ?e] \<and>
     reconnected ?s0 ?s1 \<and>
     \<not> closedFlag (reader_run ?d
      [StreamError 0 ?e 1000, StreamError 1 ?e 1050, StreamData 2 (replicate 10 0)] ?t0)"
    by code_simp
  show ?thesis using a b c e f rest by blast
qed

text \<open>
  C6 as stated does not hold for every error less than 100ms after the previous one: such
  an error is not fatal when data arrived
  in between: the error at 1000 is retried on stream 1, the data on stream 1 clears the
  record of it, and the error at 1050 is retried as well; the reader stays open and the
  read stays pending.
\<close>

theorem error_within_100ms_counterexample:
  "lastErrorTime (reader_run example_collaborators
      [StreamError 0 (External ''reset'') 1000] (example_reader False)) = Some 1000 \<and>
   map_option stream (currentConnection (reader_run example_collaborators
      [StreamError 0 (External ''reset'') 1000, StreamData 1 (replicate 10 0)]
      (example_reader False))) = Some 1 \<and>
   \<not> closedFlag (reader_run example_collaborators
      [StreamError 0 (External ''reset'') 1000, StreamData 1 (replicate 10 0),
       StreamError 1 (External ''reset'') 1050] (example_reader False)) \<and>
   promises (reader_run example_collaborators
      [StreamError 0 (External ''reset'') 1000, StreamData 1 (replicate 10 0),
       StreamError 1 (External ''reset'') 1050] (example_reader False)) = [Pending]"
  by code_simp

text \<open>
  C7. For a length other than zero, \<open>read\<close> throws when the offset or the length is
  negative, and when the length exceeds \<open>cacheSizeInBytes\<close>; otherwise, when
  \<open>offset + length\<close> exceeds the size of the opened file, it returns a promise rejected
  with the read-past-size error, and nothing has been queued, fetched or connected: the
  request is not tried again.
\<close>

theorem read_invariant_violations:
  assumes "len \<noteq> 0"
  shows
   "(offset < 0 \<or> len < 0 \<longrightarrow> read d opened now offset len s = Inl InvalidInput) \<and>
    (0 \<le> offset \<and> 0 < len \<and> cacheSizeInBytes s = Some c \<and> c < len \<longrightarrow>
       read d opened now offset len s = Inl MoreThanCacheSize) \<and>
    (0 \<le> offset \<and> 0 < len \<and>
     (cacheSizeInBytes s = None \<or> (\<exists>c. cacheSizeInBytes s = Some c \<and> len \<le> c)) \<and>
     open_file d opened s = Inr s1 \<and> fileSize s1 = Some fsize \<and> fsize < offset + len \<longrightarrow>
       read d opened now offset len s = Inr (Settled (RejectedWith ReadPastSize), s1) \<and>
       readRequests s1 = readRequests s \<and> promises s1 = promises s \<and>
       fetched s1 = fetched s \<and> currentConnection s1 = currentConnection s)"
proof (intro conjI impI)
  assume "offset < 0 \<or> len < 0"
  then show "read d opened now offset len s = Inl InvalidInput"
    using assms by (simp add: read_def)
next
  assume "0 \<le> offset \<and> 0 < len \<and> cacheSizeInBytes s = Some c \<and> c < len"
  then show "read d opened now offset len s = Inl MoreThanCacheSize"
    by (simp add: read_def)
next
  assume a: "0 \<le> offset \<and> 0 < len \<and>
     (cacheSizeInBytes s = None \<or> (\<exists>c. cacheSizeInBytes s = Some c \<and> len \<le> c)) \<and>
     open_file d opened s = Inr s1 \<and> fileSize s1 = Some fsize \<and> fsize < offset + len"
  then show "read d opened now offset len s = Inr (Settled (RejectedWith ReadPastSize), s1)"
    by (auto simp add: read_def split: option.splits)
  from a have o: "open_file d opened s = Inr s1" by simp
  show "readRequests s1 = readRequests s" "promises s1 = promises s"
    "fetched s1 = fetched s" "currentConnection s1 = currentConnection s"
    by (rule open_file_fields[OF o])+
qed

theorem read_invariant_violations_witness:
  "read example_collaborators (Inr 1000) 0 (- 1) 5
      (new_CachedFilelike example_collaborators (Some 500) False) = Inl InvalidInput \<and>
   read example_collaborators (Inr 1000) 0 5 (- 1)
      (new_CachedFilelike example_collaborators (Some 500) False) = Inl InvalidInput \<and>
   read example_collaborators (Inr 1000) 0 0 501
      (new_CachedFilelike example_collaborators (Some 500) False) = Inl MoreThanCacheSize \<and>
   fst (projr (read example_collaborators (Inr 1000) 0 990 20
      (new_CachedFilelike example_collaborators (Some 500) False)))
        = Settled (RejectedWith ReadPastSize) \<and>
   readRequests (snd (projr (read example_collaborators (Inr 1000) 0 990 20
      (new_CachedFilelike example_collaborators (Some 500) False)))) = [] \<and>
   fetched (snd (projr (read example_collaborators (Inr 1000) 0 990 20
      (new_CachedFilelike example_collaborators (Some 500) False)))) = []"
proof -
  let ?s = "new_CachedFilelike example_collaborators (Some 500) False"
  have c: "cacheSizeInBytes ?s = Some 500" "readRequests ?s = []" "fetched ?s = []"
    "fileSize ?s = None"
    by (simp_all add: new_CachedFilelike_def)
  obtain s1 where o: "open_file example_collaborators (Inr 1000) ?s = Inr s1"
    and f: "fileSize s1 = Some 1000"
    using c(4) by (simp add: open_file_def)
  have a: "read example_collaborators (Inr 1000) 0 (- 1) 5 ?s = Inl InvalidInput"
    using read_invariant_violations [of 5 "- 1" example_collaborators "Inr 1000" 0 ?s]
    by simp
  have b: "read example_collaborators (Inr 1000) 0 5 (- 1) ?s = Inl InvalidInput"
    using read_invariant_violations [of "- 1" 5 example_collaborators "Inr 1000" 0 ?s]
    by simp
  have m: "read example_collaborators (Inr 1000) 0 0 501 ?s = Inl MoreThanCacheSize"
    using c(1) read_invariant_violations [of 501 0 example_collaborators "Inr 1000" 0 ?s 500]
    by simp
  have "cacheSizeInBytes ?s = None \<or> (\<exists>c. cacheSizeInBytes ?s = Some c \<and> 20 \<le> c)"
    using c(1) by simp
  then have p: "read example_collaborators (Inr 1000) 0 990 20 ?s
        = Inr (Settled (RejectedWith ReadPastSize), s1) \<and>
      readRequests s1 = readRequests ?s \<and> fetched s1 = fetched ?s"
    using o f
      read_invariant_violations [of 20 990 example_collaborators "Inr 1000" 0 ?s 500 s1 1000]
    by simp
  show ?thesis
    unfolding a b m using p c(2,3) by simp
qed

text \<open>
  C8. \<open>open\<close> on a reader not yet opened: with \<open>cacheSizeInBytes\<close> below the file size the
  buffer is built with blocks of 10 MiB (10485760 bytes) and
  \<open>ceil(cacheSizeInBytes / 10485760) + 2\<close> of them; with \<open>cacheSizeInBytes\<close> at least the
  file size (or infinite) it is built from the file size alone, with no block size and no
  limit on the number of blocks. A reader already opened is left as it is.
\<close>

theorem open_sizes_cache:
  "(fileSize s = None \<and> cacheSizeInBytes s = Some c \<and> c < fsize \<longrightarrow>
      open_file d (Inr fsize) s =
        Inr (s\<lparr>fileSize := Some fsize,
               virtualBuffer := new_VirtualLRUBuffer d
                 \<lparr>opt_size = fsize, opt_blockSize = Some 10485760,
                  opt_numberOfBlocks = Some (\<lceil>real_of_int c / 10485760\<rceil> + 2)\<rparr>\<rparr>)) \<and>
   (fileSize s = None \<and>
    (cacheSizeInBytes s = None \<or> (\<exists>c. cacheSizeInBytes s = Some c \<and> c \<ge> fsize)) \<longrightarrow>
      open_file d (Inr fsize) s =
        Inr (s\<lparr>fileSize := Some fsize,
               virtualBuffer := new_VirtualLRUBuffer d
                 \<lparr>opt_size = fsize, opt_blockSize = None, opt_numberOfBlocks = None\<rparr>\<rparr>)) \<and>
   (fileSize s \<noteq> None \<longrightarrow> open_file d opened s = Inr s)"
  by (auto simp add: open_file_def CACHE_BLOCK_SIZE_def)

theorem open_sizes_cache_witness:
  "virtualBuffer (projr (open_file options_collaborators (Inr 100000000)
      (new_CachedFilelike options_collaborators (Some 25000000) False)))
     = \<lparr>opt_size = 100000000, opt_blockSize = Some 10485760, opt_numberOfBlocks = Some 5\<rparr> \<and>
   virtualBuffer (projr (open_file options_collaborators (Inr 100000000)
      (new_CachedFilelike options_collaborators (Some 100000000) False)))
     = \<lparr>opt_size = 100000000, opt_blockSize = None, opt_numberOfBlocks = None\<rparr> \<and>
   virtualBuffer (projr (open_file options_collaborators (Inr 100000000)
      (new_CachedFilelike options_collaborators None False)))
     = \<lparr>opt_size = 100000000, opt_blockSize = None, opt_numberOfBlocks = None\<rparr> \<and>
   open_file example_collaborators (Inr 5) (example_reader False) = Inr (example_reader False)"
  using
    open_sizes_cache [of "new_CachedFilelike options_collaborators (Some 25000000) False"
      25000000 100000000 options_collaborators]
    open_sizes_cache [of "new_CachedFilelike options_collaborators (Some 100000000) False"
      0 100000000 options_collaborators]
    open_sizes_cache [of "new_CachedFilelike options_collaborators None False"
      0 100000000 options_collaborators]
    open_sizes_cache [of "example_reader False" 0 0 example_collaborators "Inr 5"]
    example_reader_opened [of False]
  by (simp add: new_CachedFilelike_def options_collaborators_def)

text \<open>
  C10. \<open>read(offset, 0)\<close> returns a promise fulfilled with the empty array for every offset
  and in every state, whatever \<open>fileReader.open()\<close> would do: it does not throw, does not
  reject, and leaves the reader (its file size, its requests, its fetches) untouched.
\<close>

theorem read_zero_length:
  "read d opened now offset 0 s = Inr (Settled (Fulfilled []), s)"
  by (simp add: read_def)

end
